theory Spec2Isabelle
  imports Complex_Main "HOL-Library.Multiset" "HOL-Library.Log_Nat"
begin

section \<open>Data model of \<open>experiments/heterogeneous_class_dist/dataset.py\<close>\<close>

text \<open>
  The module partitions a labelled image collection into per-client index lists.
  Every exception the Python code can raise is a constructor of \<open>error\<close>; a function
  that may raise returns \<open>error + 'a\<close> with \<open>Inl\<close> for the exception.
  \<open>FloatConversionError\<close> stands for the two exceptions of \<open>int(x)\<close> on a float that
  is not finite (ValueError for NaN, OverflowError for an infinity).
\<close>

datatype error =
    AttributeError
  | IndexError
  | KeyError
  | ValueError
  | ZeroDivisionError
  | AssertionError
  | FloatConversionError
  | ExternalError

text \<open>
  A dataset object as \<open>get_num_classes_samples\<close> probes it: an object with a
  \<open>targets\<close> attribute, a subset view with \<open>dataset\<close> and \<open>indices\<close>, a tensor
  dataset whose second tensor holds the labels, or an object with none of these.
  Labels and indices are natural numbers.
\<close>

datatype dataset =
    Targets "nat list"
  | Subset dataset "nat list"
  | Tensors "nat list"
  | Opaque

text \<open>
  A finite Python float is held as the rational number it denotes; NaN and the infinities
  are the single value \<open>NonFinite\<close>. The product \<open>num_samples[c] * p\<close> of the splitter is
  rounded as IEEE 754 binary64 does it (\<open>round_double\<close> below). The proportions
  themselves come out of numpy (\<open>np.random.uniform\<close>, \<open>probs / probs.sum()\<close>); their
  scaling and normalisation are written without rounding. The properties proved of the
  generator hold whatever the values of its proportions are, and the generated plans
  evaluated below carry the proportions \<open>1\<close> (one draw, \<open>r / r\<close>) or \<open>1 / 2\<close> (two
  equal draws, \<open>r / (r + r)\<close>), which the binary64 operations give as well. Plans
  written by hand carry binary64 values: \<open>6004799503160661 / 18014398509481984\<close> is the
  float \<open>1 / 3\<close>.
\<close>

datatype pyfloat = Finite rat | NonFinite

text \<open>
  The class partition plan (\<open>class_partitions\<close>, a \<open>defaultdict(list)\<close> with the keys
  \<open>'class'\<close> and \<open>'prob'\<close>): a missing key reads as the empty list.
\<close>

record class_partitions =
  cp_class :: "nat list list"
  cp_prob :: "pyfloat list list"

text \<open>One entry of \<open>class_dict\<close>: \<open>{'count': ..., 'prob': ...}\<close>.\<close>

record class_entry =
  cd_count :: int
  cd_prob :: "pyfloat list"

text \<open>A data loader, reduced to the index subset it iterates and its parameters.\<close>

record loader =
  loader_indices :: "nat list"
  loader_batch_size :: int
  loader_shuffle :: bool

section \<open>\<open>get_datasets\<close>\<close>

text \<open>
  The library calls of \<open>get_datasets\<close> are parameters: the CIFAR constructors (which
  return the \<open>targets\<close> list of the object they build), \<open>random_split\<close>,
  \<open>os.path.exists\<close> and \<open>ImageFolder\<close>. The transforms act on features only and are
  left out.
\<close>

datatype data_obj = CIFAR10 | CIFAR100

record externals =
  ext_cifar :: "data_obj \<Rightarrow> bool \<Rightarrow> error + nat list"
  ext_random_split :: "dataset \<Rightarrow> int \<Rightarrow> int \<Rightarrow> error + dataset \<times> dataset"
  ext_path_exists :: "string \<Rightarrow> bool"
  ext_image_folder :: "string \<Rightarrow> error + dataset"

text \<open>\<open>sub in s\<close> on strings.\<close>

fun str_contains :: "string \<Rightarrow> string \<Rightarrow> bool" where
  "str_contains sub [] = (sub = [])"
| "str_contains sub (x # xs) = (take (length sub) (x # xs) = sub \<or> str_contains sub xs)"

definition norm_map :: "string \<Rightarrow> data_obj option" where
  "norm_map k = (if k = ''cifar10'' then Some CIFAR10
                 else if k = ''cifar100'' then Some CIFAR100 else None)"

definition get_datasets ::
  "externals \<Rightarrow> string \<Rightarrow> int \<Rightarrow> error + dataset \<times> dataset \<times> dataset" where
  "get_datasets ext data_name val_size =
     (if str_contains ''cifar'' data_name then
        (case norm_map data_name of
           None \<Rightarrow> Inl KeyError
         | Some data_obj \<Rightarrow>
            (case ext_cifar ext data_obj True of
               Inl e \<Rightarrow> Inl e
             | Inr ts \<Rightarrow>
                (case ext_cifar ext data_obj False of
                   Inl e \<Rightarrow> Inl e
                 | Inr ts' \<Rightarrow>
                    (let train_size = int (length ts) - val_size
                     in case ext_random_split ext (Targets ts) train_size val_size of
                          Inl e \<Rightarrow> Inl e
                        | Inr (train_set, val_set) \<Rightarrow> Inr (train_set, val_set, Targets ts')))))
      else if data_name = ''cinic10'' then
        (if \<not> ext_path_exists ext ''../cinic/train'' then Inl ValueError
         else
           (case ext_image_folder ext ''../cinic/train'' of
              Inl e \<Rightarrow> Inl e
            | Inr train_set \<Rightarrow>
               (case ext_image_folder ext ''../cinic/valid'' of
                  Inl e \<Rightarrow> Inl e
                | Inr val_set \<Rightarrow>
                   (case ext_image_folder ext ''../cinic/test'' of
                      Inl e \<Rightarrow> Inl e
                    | Inr test_set \<Rightarrow> Inr (train_set, val_set, test_set)))))
      else Inl ValueError)"

section \<open>\<open>get_num_classes_samples\<close>\<close>

text \<open>
  The label array: \<open>targets\<close> if present; for a subset view the labels of the base
  object gathered at the view's indices (an index out of range raises); otherwise the
  second tensor. The base of a subset view must itself have \<open>targets\<close>.
\<close>

fun data_labels_list :: "dataset \<Rightarrow> error + nat list" where
  "data_labels_list (Targets ts) = Inr ts"
| "data_labels_list (Subset (Targets ts) idx) =
     (if list_all (\<lambda>i. i < length ts) idx then Inr (map (\<lambda>i. ts ! i) idx) else Inl IndexError)"
| "data_labels_list (Subset d idx) = Inl AttributeError"
| "data_labels_list (Tensors ys) = Inr ys"
| "data_labels_list Opaque = Inl AttributeError"

text \<open>\<open>np.unique(labels, return_counts=True)\<close>: the sorted distinct labels and their counts.\<close>

definition np_unique :: "nat list \<Rightarrow> nat list \<times> nat list" where
  "np_unique ls = (let classes = sort (remdups ls) in (classes, map (count_list ls) classes))"

definition get_num_classes_samples :: "dataset \<Rightarrow> error + nat \<times> nat list \<times> nat list" where
  "get_num_classes_samples d =
     (case data_labels_list d of
        Inl e \<Rightarrow> Inl e
      | Inr ls \<Rightarrow> (case np_unique ls of (classes, num_samples) \<Rightarrow>
                    Inr (length classes, num_samples, ls)))"

section \<open>\<open>gen_classes_per_node\<close>\<close>

text \<open>
  The random draws are parameters. \<open>unif i k\<close> is the \<open>k\<close>-th unit sample of the call
  \<open>np.random.uniform(low_prob, high_prob, size=count_per_class)\<close> for class \<open>i\<close>, which
  numpy scales to \<open>low + (high - low) * u\<close>. \<open>rnd k\<close> is the random number behind the
  \<open>k\<close>-th call of \<open>np.random.choice\<close>, which selects position \<open>rnd k mod n\<close> of its
  \<open>n\<close> candidates.
\<close>

definition uniform :: "(nat \<Rightarrow> nat \<Rightarrow> rat) \<Rightarrow> rat \<Rightarrow> rat \<Rightarrow> nat \<Rightarrow> nat \<Rightarrow> rat list" where
  "uniform unif low high i n = map (\<lambda>k. low + (high - low) * unif i k) [0..<n]"

text \<open>\<open>(probs / probs.sum()).tolist()\<close>: dividing by a zero sum gives NaN or an infinity.\<close>

definition probs_norm :: "rat list \<Rightarrow> pyfloat list" where
  "probs_norm probs =
     (let s = sum_list probs
      in if s = 0 then map (\<lambda>p. NonFinite) probs else map (\<lambda>p. Finite (p / s)) probs)"

definition init_class_dict ::
  "(nat \<Rightarrow> nat \<Rightarrow> rat) \<Rightarrow> rat \<Rightarrow> rat \<Rightarrow> nat \<Rightarrow> nat \<Rightarrow> class_entry list" where
  "init_class_dict unif low high num_classes count_per_class =
     map (\<lambda>i. \<lparr>cd_count = int count_per_class,
               cd_prob = probs_norm (uniform unif low high i count_per_class)\<rparr>)
         [0..<num_classes]"

text \<open>
  The classes holding the maximal remaining count that the client has not chosen yet:
  \<open>list(set(np.where(class_counts == max(class_counts))[0]) - set(c))\<close>.
\<close>

definition max_class_counts :: "class_entry list \<Rightarrow> nat list \<Rightarrow> error + nat list" where
  "max_class_counts class_dict c =
     (case map cd_count class_dict of
        [] \<Rightarrow> Inl ValueError
      | x # xs \<Rightarrow>
         (let m = fold max xs x
          in Inr (filter (\<lambda>i. i \<notin> set c)
                    (filter (\<lambda>i. cd_count (class_dict ! i) = m) [0..<length class_dict]))))"

text \<open>
  The inner loop \<open>for _ in range(classes_per_user)\<close>; \<open>k\<close> counts the calls of
  \<open>np.random.choice\<close> made so far, \<open>n\<close> the iterations left. Choosing from an empty
  candidate list raises ValueError.
\<close>

fun select_classes ::
  "(nat \<Rightarrow> nat) \<Rightarrow> nat \<Rightarrow> nat \<Rightarrow> class_entry list \<Rightarrow> nat list \<Rightarrow> error + class_entry list \<times> nat list" where
  "select_classes rnd k 0 class_dict c = Inr (class_dict, c)"
| "select_classes rnd k (Suc n) class_dict c =
     (case max_class_counts class_dict c of
        Inl e \<Rightarrow> Inl e
      | Inr cands \<Rightarrow>
         (if cands = [] then Inl ValueError
          else
            (let x = cands ! (rnd k mod length cands);
                 class_dict' = class_dict[x := (class_dict ! x)\<lparr>cd_count := cd_count (class_dict ! x) - 1\<rparr>]
             in select_classes rnd (Suc k) n class_dict' (c @ [x]))))"

text \<open>
  \<open>[class_dict[i]['prob'].pop() for i in c]\<close>: each pop removes and returns the last
  proportion of the class; popping an empty list raises IndexError.
\<close>

fun pop_probs :: "class_entry list \<Rightarrow> nat list \<Rightarrow> error + class_entry list \<times> pyfloat list" where
  "pop_probs class_dict [] = Inr (class_dict, [])"
| "pop_probs class_dict (i # is) =
     (if length class_dict \<le> i then Inl KeyError
      else
        (case cd_prob (class_dict ! i) of
           [] \<Rightarrow> Inl IndexError
         | p # ps \<Rightarrow>
            (let class_dict' = class_dict[i := (class_dict ! i)\<lparr>cd_prob := butlast (p # ps)\<rparr>]
             in case pop_probs class_dict' is of
                  Inl e \<Rightarrow> Inl e
                | Inr (class_dict'', qs) \<Rightarrow> Inr (class_dict'', last (p # ps) # qs))))"

text \<open>
  The outer loop \<open>for i in range(num_users)\<close>, over the users still to serve; the result
  carries the final \<open>class_dict\<close> beside the plan.
\<close>

fun assign_classes ::
  "(nat \<Rightarrow> nat) \<Rightarrow> nat \<Rightarrow> nat \<Rightarrow> nat \<Rightarrow> class_entry list \<Rightarrow> class_partitions
     \<Rightarrow> error + class_entry list \<times> class_partitions" where
  "assign_classes rnd k 0 classes_per_user class_dict parts = Inr (class_dict, parts)"
| "assign_classes rnd k (Suc n) classes_per_user class_dict parts =
     (case select_classes rnd k classes_per_user class_dict [] of
        Inl e \<Rightarrow> Inl e
      | Inr (class_dict', c) \<Rightarrow>
         (case pop_probs class_dict' c of
            Inl e \<Rightarrow> Inl e
          | Inr (class_dict'', ps) \<Rightarrow>
             assign_classes rnd (k + classes_per_user) n classes_per_user class_dict''
               (parts\<lparr>cp_class := cp_class parts @ [c], cp_prob := cp_prob parts @ [ps]\<rparr>)))"

text \<open>
  \<open>gen_classes_per_node_state\<close> is the body of \<open>gen_classes_per_node\<close> with the final
  \<open>class_dict\<close> kept; \<open>gen_classes_per_node\<close> returns the plan alone. The numbers of
  users and of classes per user are counts. With no class at all the \<open>%\<close> of the
  assertion divides by zero.
\<close>

definition gen_classes_per_node_state ::
  "(nat \<Rightarrow> nat) \<Rightarrow> (nat \<Rightarrow> nat \<Rightarrow> rat) \<Rightarrow> dataset \<Rightarrow> nat \<Rightarrow> nat \<Rightarrow> rat \<Rightarrow> rat
     \<Rightarrow> error + class_entry list \<times> class_partitions" where
  "gen_classes_per_node_state rnd unif dataset num_users classes_per_user high_prob low_prob =
     (case get_num_classes_samples dataset of
        Inl e \<Rightarrow> Inl e
      | Inr (num_classes, num_samples, labels) \<Rightarrow>
         (if num_classes = 0 then Inl ZeroDivisionError
          else if (classes_per_user * num_users) mod num_classes \<noteq> 0 then Inl AssertionError
          else
            (let count_per_class = (classes_per_user * num_users) div num_classes;
                 class_dict = init_class_dict unif low_prob high_prob num_classes count_per_class
             in assign_classes rnd 0 num_users classes_per_user class_dict
                  \<lparr>cp_class = [], cp_prob = []\<rparr>)))"

definition gen_classes_per_node ::
  "(nat \<Rightarrow> nat) \<Rightarrow> (nat \<Rightarrow> nat \<Rightarrow> rat) \<Rightarrow> dataset \<Rightarrow> nat \<Rightarrow> nat \<Rightarrow> rat \<Rightarrow> rat
     \<Rightarrow> error + class_partitions" where
  "gen_classes_per_node rnd unif dataset num_users classes_per_user high_prob low_prob =
     (case gen_classes_per_node_state rnd unif dataset num_users classes_per_user high_prob low_prob of
        Inl e \<Rightarrow> Inl e
      | Inr (class_dict, parts) \<Rightarrow> Inr parts)"

section \<open>\<open>gen_data_split\<close>\<close>

text \<open>
  Rounding a rational to the nearest binary64 value, ties to even. For \<open>x \<noteq> 0\<close> with
  \<open>2 ^ d \<le> \<bar>x\<bar> < 2 ^ (d + 1)\<close> (\<open>d = ilog2 \<bar>x\<bar>\<close>) the result is a multiple of \<open>2 ^ e\<close>
  with \<open>e = d - 52\<close>, that is a significand of 53 bits, and \<open>e = - 1074\<close> in the subnormal
  range. A result of magnitude \<open>2 ^ 1024\<close> or more is an infinity: the integer \<open>m\<close> has
  \<open>bitlen m\<close> bits, so this is \<open>1024 < e + bitlen m\<close>.
\<close>

definition round_half_even :: "rat \<Rightarrow> int" where
  "round_half_even r =
     (let f = \<lfloor>r\<rfloor>; d = r - of_int f
      in if d < 1 / 2 then f else if 1 / 2 < d then f + 1 else if even f then f else f + 1)"

definition ilog2 :: "rat \<Rightarrow> int" where
  "ilog2 x =
     (case quotient_of x of (a, b) \<Rightarrow>
        (let d = bitlen a - bitlen b in if 2 powi d \<le> x then d else d - 1))"

definition round_double :: "rat \<Rightarrow> pyfloat" where
  "round_double x =
     (if x = 0 then Finite 0
      else
        (let e = max (ilog2 \<bar>x\<bar> - 52) (- 1074);
             m = round_half_even (\<bar>x\<bar> / 2 powi e)
         in if 1024 < e + bitlen m then NonFinite
            else Finite (sgn x * (of_int m * 2 powi e))))"

text \<open>
  \<open>int(num_samples[c] * p)\<close>: \<open>num_samples[c]\<close> is a numpy integer and \<open>p\<close> a float, so the
  count is converted to binary64, the product is the binary64 product, and \<open>int\<close>
  truncates it towards zero; \<open>int\<close> of NaN or of an infinity raises.
\<close>

definition trunc :: "rat \<Rightarrow> int" where
  "trunc q = (if 0 \<le> q then \<lfloor>q\<rfloor> else \<lceil>q\<rceil>)"

definition int_of_product :: "nat \<Rightarrow> pyfloat \<Rightarrow> error + int" where
  "int_of_product n p =
     (case p of
        NonFinite \<Rightarrow> Inl FloatConversionError
      | Finite q \<Rightarrow>
         (case round_double (of_nat n) of
            NonFinite \<Rightarrow> Inl FloatConversionError
          | Finite m \<Rightarrow>
             (case round_double (m * q) of
                NonFinite \<Rightarrow> Inl FloatConversionError
              | Finite y \<Rightarrow> Inr (trunc y))))"

text \<open>
  Python slices \<open>xs[:e]\<close> and \<open>xs[e:]\<close>: a negative bound counts from the end, and a
  bound outside the list is clamped.
\<close>

definition slice_bound :: "int \<Rightarrow> nat \<Rightarrow> nat" where
  "slice_bound e n = (if 0 \<le> e then min (nat e) n else nat (max 0 (int n + e)))"

definition slice_to :: "int \<Rightarrow> 'a list \<Rightarrow> 'a list" where
  "slice_to e xs = take (slice_bound e (length xs)) xs"

definition slice_from :: "int \<Rightarrow> 'a list \<Rightarrow> 'a list" where
  "slice_from e xs = drop (slice_bound e (length xs)) xs"

text \<open>
  The body of the inner loop for one \<open>(c, p)\<close> pair, on the state made of the class
  pools \<open>data_class_idx\<close> and the list of the current user.
\<close>

definition assign_class ::
  "nat list \<Rightarrow> nat list list \<times> nat list \<Rightarrow> nat \<times> pyfloat \<Rightarrow> error + nat list list \<times> nat list" where
  "assign_class num_samples st cp =
     (case st of (data_class_idx, mine) \<Rightarrow>
      case cp of (c, p) \<Rightarrow>
        (if length num_samples \<le> c then Inl IndexError
         else
           (case int_of_product (num_samples ! c) p of
              Inl e \<Rightarrow> Inl e
            | Inr end_idx \<Rightarrow>
               (if length data_class_idx \<le> c then Inl KeyError
                else Inr (data_class_idx[c := slice_from end_idx (data_class_idx ! c)],
                          mine @ slice_to end_idx (data_class_idx ! c))))))"

fun assign_user ::
  "nat list \<Rightarrow> nat list list \<Rightarrow> nat list \<Rightarrow> (nat \<times> pyfloat) list \<Rightarrow> error + nat list list \<times> nat list" where
  "assign_user num_samples data_class_idx mine [] = Inr (data_class_idx, mine)"
| "assign_user num_samples data_class_idx mine (cp # cps) =
     (case assign_class num_samples (data_class_idx, mine) cp of
        Inl e \<Rightarrow> Inl e
      | Inr (data_class_idx', mine') \<Rightarrow> assign_user num_samples data_class_idx' mine' cps)"

text \<open>The loop over the users; reading the plan beyond its length raises IndexError.\<close>

fun assign_users ::
  "nat list \<Rightarrow> class_partitions \<Rightarrow> nat list list \<Rightarrow> nat list \<Rightarrow> error + nat list list" where
  "assign_users num_samples parts data_class_idx [] = Inr []"
| "assign_users num_samples parts data_class_idx (usr_i # us) =
     (if length (cp_class parts) \<le> usr_i \<or> length (cp_prob parts) \<le> usr_i then Inl IndexError
      else
        (case assign_user num_samples data_class_idx []
                (zip (cp_class parts ! usr_i) (cp_prob parts ! usr_i)) of
           Inl e \<Rightarrow> Inl e
         | Inr (data_class_idx', mine) \<Rightarrow>
            (case assign_users num_samples parts data_class_idx' us of
               Inl e \<Rightarrow> Inl e
             | Inr rest \<Rightarrow> Inr (mine # rest))))"

text \<open>
  \<open>shuffle i\<close> is the permutation \<open>random.shuffle\<close> applies to the pool of class \<open>i\<close>.
\<close>

definition class_pool :: "nat list \<Rightarrow> nat \<Rightarrow> nat list" where
  "class_pool labels i = filter (\<lambda>j. labels ! j = i) [0..<length labels]"

definition gen_data_split ::
  "(nat \<Rightarrow> nat list \<Rightarrow> nat list) \<Rightarrow> dataset \<Rightarrow> nat \<Rightarrow> class_partitions \<Rightarrow> error + nat list list" where
  "gen_data_split shuffle dataset num_users parts =
     (case get_num_classes_samples dataset of
        Inl e \<Rightarrow> Inl e
      | Inr (num_classes, num_samples, labels) \<Rightarrow>
         (let data_class_idx = map (\<lambda>i. shuffle i (class_pool labels i)) [0..<num_classes]
          in assign_users num_samples parts data_class_idx [0..<num_users]))"

section \<open>\<open>gen_random_loaders\<close>\<close>

text \<open>
  The plan is computed on the first dataset (the training split) and reused for the
  other two; only the training loaders shuffle. \<open>shuf s\<close> is the family of pool
  permutations of split \<open>s\<close>.
\<close>

definition make_loaders :: "int \<Rightarrow> bool \<Rightarrow> nat list list \<Rightarrow> loader list" where
  "make_loaders bz sh usr_subset_idx =
     map (\<lambda>x. \<lparr>loader_indices = x, loader_batch_size = bz, loader_shuffle = sh\<rparr>) usr_subset_idx"

definition gen_random_loaders ::
  "externals \<Rightarrow> (nat \<Rightarrow> nat) \<Rightarrow> (nat \<Rightarrow> nat \<Rightarrow> rat) \<Rightarrow> (nat \<Rightarrow> nat \<Rightarrow> nat list \<Rightarrow> nat list)
     \<Rightarrow> string \<Rightarrow> nat \<Rightarrow> int \<Rightarrow> nat \<Rightarrow> error + loader list list" where
  "gen_random_loaders ext rnd unif shuf data_name num_users bz classes_per_user =
     (case get_datasets ext data_name 10000 of
        Inl e \<Rightarrow> Inl e
      | Inr (train_set, val_set, test_set) \<Rightarrow>
         (case gen_classes_per_node rnd unif train_set num_users classes_per_user (6/10) (4/10) of
            Inl e \<Rightarrow> Inl e
          | Inr cls_partitions \<Rightarrow>
             (case gen_data_split (shuf 0) train_set num_users cls_partitions of
                Inl e \<Rightarrow> Inl e
              | Inr tr \<Rightarrow>
                 (case gen_data_split (shuf 1) val_set num_users cls_partitions of
                    Inl e \<Rightarrow> Inl e
                  | Inr va \<Rightarrow>
                     (case gen_data_split (shuf 2) test_set num_users cls_partitions of
                        Inl e \<Rightarrow> Inl e
                      | Inr te \<Rightarrow>
                         Inr [make_loaders bz True tr, make_loaders bz False va,
                              make_loaders bz False te])))))"

section \<open>The index splitter as the specification words it\<close>





section \<open>Notions used to state the properties\<close>







text \<open>
  The proportions handed to class \<open>i\<close> by the plan rows \<open>cs\<close> (classes) and
  \<open>pss\<close> (proportions), as a multiset.
\<close>

definition popped :: "nat \<Rightarrow> nat list list \<Rightarrow> pyfloat list list \<Rightarrow> pyfloat multiset" where
  "popped i cs pss =
     mset (map snd (filter (\<lambda>cp. fst cp = i) (concat (map (\<lambda>(c, ps). zip c ps) (zip cs pss)))))"

text \<open>
  Invariants of the greedy selection, on the list of remaining counts: the counts differ by
  at most one, and within a user's turn either no chosen class is at the maximum or every
  class not yet chosen is.
\<close>

definition balanced :: "int list \<Rightarrow> bool" where
  "balanced xs \<longleftrightarrow> (\<forall>i<length xs. \<forall>j<length xs. xs ! i \<le> xs ! j + 1)"

definition sel_inv :: "int list \<Rightarrow> nat list \<Rightarrow> bool" where
  "sel_inv xs c \<longleftrightarrow>
     xs \<noteq> [] \<and> balanced xs \<and> distinct c \<and> (\<forall>x\<in>set c. x < length xs)
     \<and> ((\<forall>x\<in>set c. xs ! x < Max (set xs))
          \<or> (\<forall>i<length xs. i \<notin> set c \<longrightarrow> xs ! i = Max (set xs)))"

text \<open>Every index held in the pool of class \<open>c\<close> carries the label \<open>c\<close>.\<close>

definition pools_labelled :: "nat list \<Rightarrow> nat list list \<Rightarrow> bool" where
  "pools_labelled labels pools \<longleftrightarrow>
     (\<forall>c<length pools. \<forall>j\<in>set (pools ! c). j < length labels \<and> labels ! j = c)"

text \<open>
  A small world for concrete runs: a CIFAR object with six samples of two classes, split
  into a training view of four samples and a validation view of two.
\<close>

definition small_world :: externals where
  "small_world = \<lparr>ext_cifar = (\<lambda>d b. Inr [0, 1, 0, 1, 1, 0]),
                  ext_random_split = (\<lambda>d a b. Inr (Subset d [0, 1, 2, 3], Subset d [4, 5])),
                  ext_path_exists = (\<lambda>s. False), ext_image_folder = (\<lambda>s. Inr Opaque)\<rparr>"






section \<open>Properties of \<open>get_datasets\<close>\<close>

text \<open>
  C8. A \<open>data_name\<close> outside \<open>cifar10\<close>, \<open>cifar100\<close>, \<open>cinic10\<close> makes \<open>get_datasets\<close>
  raise instead of returning datasets: KeyError from the \<open>norm_map\<close> lookup when the
  name contains \<open>cifar\<close>, ValueError otherwise. For \<open>cinic10\<close> with the directory
  \<open>../cinic/train\<close> absent it raises ValueError.
\<close>

theorem get_datasets_rejects_unknown:
  "(data_name \<notin> {''cifar10'', ''cifar100'', ''cinic10''} \<longrightarrow>
      get_datasets ext data_name val_size =
        Inl (if str_contains ''cifar'' data_name then KeyError else ValueError))
   \<and> (\<not> ext_path_exists ext ''../cinic/train'' \<longrightarrow>
      get_datasets ext ''cinic10'' val_size = Inl ValueError)"
  by (simp add: get_datasets_def norm_map_def)

theorem get_datasets_rejects_unknown_witness:
  "get_datasets \<lparr>ext_cifar = (\<lambda>d b. Inr [0, 1]), ext_random_split = (\<lambda>d a b. Inr (d, d)),
        ext_path_exists = (\<lambda>s. False), ext_image_folder = (\<lambda>s. Inr Opaque)\<rparr> ''cifar5'' 10
     = Inl KeyError
   \<and> get_datasets \<lparr>ext_cifar = (\<lambda>d b. Inr [0, 1]), ext_random_split = (\<lambda>d a b. Inr (d, d)),
        ext_path_exists = (\<lambda>s. False), ext_image_folder = (\<lambda>s. Inr Opaque)\<rparr> ''cinic10'' 10
     = Inl ValueError"
  using get_datasets_rejects_unknown [of "''cifar5''"
      "\<lparr>ext_cifar = (\<lambda>d b. Inr [0, 1]), ext_random_split = (\<lambda>d a b. Inr (d, d)),
        ext_path_exists = (\<lambda>s. False), ext_image_folder = (\<lambda>s. Inr Opaque)\<rparr>" 10]
  by simp

section \<open>Properties of \<open>gen_data_split\<close>\<close>

subsection \<open>Slices and the single assignment\<close>




lemma assign_class_result:
  assumes "assign_class ns (pools, mine) (c, p) = Inr (pools', mine')"
  shows "\<exists>k. c < length pools \<and> pools' = pools[c := drop k (pools ! c)]
            \<and> mine' = mine @ take k (pools ! c)"
  using assms
  by (auto simp: assign_class_def slice_to_def slice_from_def split: if_splits sum.splits)




subsection \<open>Pools and user lists partition the indices\<close>

lemma mset_concat_update_drop:
  assumes c: "c < length pools"
  shows "mset (concat (pools[c := drop k (pools ! c)])) + mset (take k (pools ! c))
           = mset (concat pools)"
proof -
  have a: "pools = take c pools @ (pools ! c) # drop (Suc c) pools"
    using c by (simp add: id_take_nth_drop)
  have b: "pools[c := drop k (pools ! c)] = take c pools @ drop k (pools ! c) # drop (Suc c) pools"
    using c by (simp add: upd_conv_take_nth_drop)
  have "mset (concat (pools[c := drop k (pools ! c)])) + mset (take k (pools ! c))
        = mset (concat (take c pools)) + (mset (take k (pools ! c)) + mset (drop k (pools ! c)))
          + mset (concat (drop (Suc c) pools))"
    by (subst b) simp
  also have "mset (take k (pools ! c)) + mset (drop k (pools ! c)) = mset (pools ! c)"
    by (metis append_take_drop_id mset_append)
  also have "mset (concat (take c pools)) + mset (pools ! c) + mset (concat (drop (Suc c) pools))
        = mset (concat pools)"
    by (subst (4) a) simp
  finally show ?thesis .
qed

lemma assign_class_mset:
  assumes "assign_class ns (pools, mine) cp = Inr (pools', mine')"
  shows "mset (concat pools') + mset mine' = mset (concat pools) + mset mine"
proof -
  obtain c p where cp: "cp = (c, p)" by (cases cp)
  from assign_class_result[OF assms[unfolded cp]] obtain k where
    k: "c < length pools" "pools' = pools[c := drop k (pools ! c)]" "mine' = mine @ take k (pools ! c)"
    by blast
  show ?thesis using mset_concat_update_drop[OF k(1), of k] by (simp add: k(2,3))
qed

lemma assign_user_mset:
  "assign_user ns pools mine cps = Inr (pools', mine') \<Longrightarrow>
   mset (concat pools') + mset mine' = mset (concat pools) + mset mine"
proof (induction cps arbitrary: pools mine)
  case Nil
  then show ?case by simp
next
  case (Cons cp cps)
  from Cons.prems obtain pools1 mine1 where
    s: "assign_class ns (pools, mine) cp = Inr (pools1, mine1)"
    and r: "assign_user ns pools1 mine1 cps = Inr (pools', mine')"
    by (auto split: sum.splits)
  show ?case using Cons.IH[OF r] assign_class_mset[OF s] by simp
qed

lemma assign_users_mset:
  "assign_users ns parts pools us = Inr outs \<Longrightarrow>
   length outs = length us \<and> mset (concat outs) \<subseteq># mset (concat pools)"
proof (induction us arbitrary: pools outs)
  case Nil
  then show ?case by simp
next
  case (Cons u us)
  from Cons.prems obtain pools1 mine rest where
    s: "assign_user ns pools [] (zip (cp_class parts ! u) (cp_prob parts ! u)) = Inr (pools1, mine)"
    and r: "assign_users ns parts pools1 us = Inr rest"
    and o: "outs = mine # rest"
    by (auto split: sum.splits if_splits)
  from assign_user_mset[OF s] have e: "mset (concat pools1) + mset mine = mset (concat pools)" by simp
  from Cons.IH[OF r] have l: "length rest = length us" and m: "mset (concat rest) \<subseteq># mset (concat pools1)"
    by simp_all
  have "mset (concat outs) = mset mine + mset (concat rest)" by (simp add: o)
  also have "\<dots> \<subseteq># mset mine + mset (concat pools1)" using m by simp
  also have "\<dots> = mset (concat pools)" using e by (simp add: add.commute)
  finally show ?case using l o by simp
qed

lemma distinct_concat_disjoint:
  "distinct (concat xss) \<Longrightarrow> u < v \<Longrightarrow> v < length xss \<Longrightarrow> set (xss ! u) \<inter> set (xss ! v) = {}"
proof (induction xss arbitrary: u v)
  case Nil
  then show ?case by simp
next
  case (Cons xs xss)
  show ?case
  proof (cases u)
    case 0
    then obtain v' where v: "v = Suc v'" using Cons.prems(2) by (cases v) auto
    then have "xss ! v' \<in> set xss" using Cons.prems(3) by simp
    then have "set (xss ! v') \<subseteq> set (concat xss)" by auto
    then show ?thesis using Cons.prems(1) 0 v by auto
  next
    case (Suc u')
    then obtain v' where v: "v = Suc v'" using Cons.prems(2) by (cases v) auto
    show ?thesis using Cons.IH[of u' v'] Cons.prems Suc v by simp
  qed
qed

lemma class_pool_set: "set (class_pool labels i) = {j. j < length labels \<and> labels ! j = i}"
  by (auto simp: class_pool_def)

lemma class_pool_distinct: "distinct (class_pool labels i)"
  by (simp add: class_pool_def)

lemma shuffle_set:
  assumes "\<And>i xs. mset (shuffle i xs) = mset xs"
  shows "set (shuffle i (class_pool labels i)) = {j. j < length labels \<and> labels ! j = i}"
  using assms class_pool_set by (metis set_mset_mset)

lemma initial_pools_distinct:
  assumes "\<And>i xs. mset (shuffle i xs) = mset xs"
  shows "distinct (concat (map (\<lambda>i. shuffle i (class_pool labels i)) [0..<K]))"
proof (induction K)
  case 0
  then show ?case by simp
next
  case (Suc K)
  have s: "\<And>i. set (shuffle i (class_pool labels i)) = {j. j < length labels \<and> labels ! j = i}"
    by (rule shuffle_set[OF assms])
  have d: "\<And>i. distinct (shuffle i (class_pool labels i))"
    using assms class_pool_distinct by (metis mset_eq_imp_distinct_iff)
  show ?case using Suc d by (auto simp: s)
qed

lemma distinct_mset_subseteq:
  "mset xs \<subseteq># mset ys \<Longrightarrow> distinct ys \<Longrightarrow> distinct xs"
proof (induction xs arbitrary: ys)
  case Nil
  then show ?case by simp
next
  case (Cons x xs)
  have "mset xs \<subseteq># mset ys - {#x#}"
    using Cons.prems(1) by (simp add: insert_subset_eq_iff)
  then have s: "mset xs \<subseteq># mset (remove1 x ys)" by simp
  have d: "distinct (remove1 x ys)" using Cons.prems(2) by simp
  have "distinct xs" using Cons.IH[OF s d] .
  moreover have "set xs \<subseteq> set (remove1 x ys)" using s by (metis set_mset_mono set_mset_mset)
  then have "x \<notin> set xs" using Cons.prems(2) by auto
  ultimately show ?case by simp
qed

text \<open>
  C3. Whatever the plan, when every \<open>shuffle i\<close> permutes its pool, the lists
  \<open>gen_data_split\<close> returns (one per user) have no index in common, and no list
  repeats an index.
\<close>

theorem gen_data_split_disjoint:
  assumes perm: "\<And>i xs. mset (shuffle i xs) = mset xs"
    and run: "gen_data_split shuffle dataset num_users parts = Inr outs"
  shows "length outs = num_users \<and> distinct (concat outs)
       \<and> (\<forall>u v. u < v \<and> v < num_users \<longrightarrow> set (outs ! u) \<inter> set (outs ! v) = {})"
proof -
  from run obtain num_classes num_samples labels where
    a: "assign_users num_samples parts
          (map (\<lambda>i. shuffle i (class_pool labels i)) [0..<num_classes]) [0..<num_users] = Inr outs"
    by (auto simp: gen_data_split_def split: sum.splits)
  from assign_users_mset[OF a] have l: "length outs = num_users"
    and m: "mset (concat outs)
              \<subseteq># mset (concat (map (\<lambda>i. shuffle i (class_pool labels i)) [0..<num_classes]))"
    by simp_all
  have d: "distinct (concat outs)"
    using m initial_pools_distinct[OF perm, where labels = labels and K = num_classes]
    by (rule distinct_mset_subseteq)
  show ?thesis using l d distinct_concat_disjoint[OF d] by simp
qed

theorem gen_data_split_disjoint_witness:
  "gen_data_split (\<lambda>i. rev) (Targets [0, 1, 0, 1, 0, 1]) 2
       \<lparr>cp_class = [[0, 1], [1, 0]],
          cp_prob = [[Finite (6004799503160661 / 18014398509481984),
                      Finite (6004799503160661 / 9007199254740992)],
                     [Finite (6004799503160661 / 18014398509481984),
                      Finite (6004799503160661 / 9007199254740992)]]\<rparr>
     = Inr [[4, 5, 3], [1, 2, 0]]
   \<and> set ([[4, 5, 3], [1, 2, 0 :: nat]] ! 0) \<inter> set ([[4, 5, 3], [1, 2, 0]] ! 1) = {}"
proof -
  have p: "\<And>(i :: nat) xs :: nat list. mset ((\<lambda>i. rev) i xs) = mset xs" by simp
  have r: "gen_data_split (\<lambda>i. rev) (Targets [0, 1, 0, 1, 0, 1]) 2
       \<lparr>cp_class = [[0, 1], [1, 0]],
          cp_prob = [[Finite (6004799503160661 / 18014398509481984),
                      Finite (6004799503160661 / 9007199254740992)],
                     [Finite (6004799503160661 / 18014398509481984),
                      Finite (6004799503160661 / 9007199254740992)]]\<rparr>
     = Inr [[4, 5, 3], [1, 2, 0]]"
    by code_simp
  have "0 < (1 :: nat) \<and> (1 :: nat) < 2" by simp
  with gen_data_split_disjoint [OF p r] r show ?thesis by blast
qed

subsection \<open>Labels of the assigned indices\<close>

lemma assign_class_labels:
  assumes "assign_class ns (pools, mine) (c, p) = Inr (pools', mine')"
    and "pools_labelled labels pools"
  shows "pools_labelled labels pools'
       \<and> (\<forall>j\<in>set mine'. j \<in> set mine \<or> (j < length labels \<and> labels ! j = c))"
proof -
  from assign_class_result[OF assms(1)] obtain k where
    k: "c < length pools" "pools' = pools[c := drop k (pools ! c)]" "mine' = mine @ take k (pools ! c)"
    by blast
  have a: "pools_labelled labels pools'"
    unfolding pools_labelled_def k(2)
  proof (intro allI impI ballI)
    fix d j
    assume d: "d < length (pools[c := drop k (pools ! c)])"
      and j: "j \<in> set (pools[c := drop k (pools ! c)] ! d)"
    have "j \<in> set (pools ! d)"
    proof (cases "d = c")
      case True
      then show ?thesis using j k(1) by (auto dest: in_set_dropD)
    next
      case False
      then show ?thesis using j by simp
    qed
    then show "j < length labels \<and> labels ! j = d"
      using assms(2) d by (simp add: pools_labelled_def)
  qed
  have b: "\<forall>j\<in>set mine'. j \<in> set mine \<or> (j < length labels \<and> labels ! j = c)"
    using assms(2) k(1) by (auto simp: k(3) pools_labelled_def dest: in_set_takeD)
  show ?thesis using a b by simp
qed

lemma assign_user_labels:
  "assign_user ns pools mine cps = Inr (pools', mine') \<Longrightarrow> pools_labelled labels pools \<Longrightarrow>
   pools_labelled labels pools'
     \<and> (\<forall>j\<in>set mine'. j \<in> set mine \<or> (j < length labels \<and> labels ! j \<in> fst ` set cps))"
proof (induction cps arbitrary: pools mine)
  case Nil
  then show ?case by simp
next
  case (Cons cp cps)
  obtain c p where cp: "cp = (c, p)" by (cases cp)
  from Cons.prems(1) obtain pools1 mine1 where
    s: "assign_class ns (pools, mine) (c, p) = Inr (pools1, mine1)"
    and r: "assign_user ns pools1 mine1 cps = Inr (pools', mine')"
    by (auto simp: cp split: sum.splits)
  from assign_class_labels[OF s Cons.prems(2)] have
    l1: "pools_labelled labels pools1"
    and m1: "\<forall>j\<in>set mine1. j \<in> set mine \<or> (j < length labels \<and> labels ! j = c)"
    by simp_all
  from Cons.IH[OF r l1] have
    l2: "pools_labelled labels pools'"
    and m2: "\<forall>j\<in>set mine'. j \<in> set mine1 \<or> (j < length labels \<and> labels ! j \<in> fst ` set cps)"
    by simp_all
  show ?case using l2 m1 m2 by (auto simp: cp)
qed

lemma assign_users_labels:
  "assign_users ns parts pools us = Inr outs \<Longrightarrow> pools_labelled labels pools \<Longrightarrow>
   k < length us \<Longrightarrow> j \<in> set (outs ! k) \<Longrightarrow>
   j < length labels \<and> labels ! j \<in> set (cp_class parts ! (us ! k))"
proof (induction us arbitrary: pools outs k)
  case Nil
  then show ?case by simp
next
  case (Cons u us)
  from Cons.prems(1) obtain pools1 mine rest where
    s: "assign_user ns pools [] (zip (cp_class parts ! u) (cp_prob parts ! u)) = Inr (pools1, mine)"
    and r: "assign_users ns parts pools1 us = Inr rest"
    and o: "outs = mine # rest"
    by (auto split: sum.splits if_splits)
  from assign_user_labels[OF s Cons.prems(2)] have
    l1: "pools_labelled labels pools1"
    and m1: "\<forall>j\<in>set mine. j < length labels
               \<and> labels ! j \<in> fst ` set (zip (cp_class parts ! u) (cp_prob parts ! u))"
    by simp_all
  show ?case
  proof (cases k)
    case 0
    then have "j \<in> set mine" using Cons.prems(4) o by simp
    with m1 have "j < length labels"
      and "labels ! j \<in> fst ` set (zip (cp_class parts ! u) (cp_prob parts ! u))" by simp_all
    moreover have "fst ` set (zip (cp_class parts ! u) (cp_prob parts ! u)) \<subseteq> set (cp_class parts ! u)"
      by (auto dest: set_zip_leftD)
    ultimately show ?thesis using 0 by auto
  next
    case (Suc k')
    then show ?thesis using Cons.IH[OF r l1, of k'] Cons.prems(3,4) o by simp
  qed
qed

lemma initial_pools_labelled:
  assumes "\<And>i xs. mset (shuffle i xs) = mset xs"
  shows "pools_labelled labels (map (\<lambda>i. shuffle i (class_pool labels i)) [0..<K])"
proof -
  have s: "\<And>i. set (shuffle i (class_pool labels i)) = {j. j < length labels \<and> labels ! j = i}"
    by (rule shuffle_set[OF assms])
  show ?thesis by (simp add: pools_labelled_def s)
qed

lemma gen_data_split_labels:
  assumes perm: "\<And>i xs. mset (shuffle i xs) = mset xs"
    and run: "gen_data_split shuffle dataset num_users parts = Inr outs"
    and u: "u < num_users" and j: "j \<in> set (outs ! u)"
  shows "\<exists>num_classes num_samples labels.
           get_num_classes_samples dataset = Inr (num_classes, num_samples, labels)
         \<and> j < length labels \<and> labels ! j \<in> set (cp_class parts ! u)"
proof -
  from run obtain num_classes num_samples labels where
    g: "get_num_classes_samples dataset = Inr (num_classes, num_samples, labels)" and
    a: "assign_users num_samples parts
          (map (\<lambda>i. shuffle i (class_pool labels i)) [0..<num_classes]) [0..<num_users] = Inr outs"
    by (auto simp: gen_data_split_def split: sum.splits)
  from assign_users_labels[OF a initial_pools_labelled[OF perm], of u j] u j
  have "j < length labels \<and> labels ! j \<in> set (cp_class parts ! u)" by simp
  with g show ?thesis by blast
qed


lemma gen_data_split_length:
  "gen_data_split shuffle dataset num_users parts = Inr outs \<Longrightarrow> length outs = num_users"
  by (auto simp: gen_data_split_def split: sum.splits dest: assign_users_mset)

lemma make_loaders_indices:
  "u < length xs \<Longrightarrow> loader_indices (make_loaders bz sh xs ! u) = xs ! u"
  by (simp add: make_loaders_def)

text \<open>
  C5. \<open>gen_random_loaders\<close> computes the plan once, on the training split, and hands it
  to the splitter of each of the three splits. In every split, every index given to user
  \<open>u\<close> is an index of that split whose label is one of the classes planned for \<open>u\<close>.
\<close>

theorem gen_random_loaders_class_footprint:
  assumes perm: "\<And>s i xs. mset (shuf s i xs) = mset xs"
    and run: "gen_random_loaders ext rnd unif shuf data_name num_users bz classes_per_user
                = Inr loaders"
  shows "\<exists>train_set val_set test_set plan.
           get_datasets ext data_name 10000 = Inr (train_set, val_set, test_set)
         \<and> gen_classes_per_node rnd unif train_set num_users classes_per_user (6/10) (4/10)
             = Inr plan
         \<and> length loaders = 3
         \<and> (\<forall>s<3. \<forall>u<num_users. \<forall>j\<in>set (loader_indices (loaders ! s ! u)).
               \<exists>num_classes num_samples labels.
                 get_num_classes_samples ([train_set, val_set, test_set] ! s)
                   = Inr (num_classes, num_samples, labels)
               \<and> j < length labels \<and> labels ! j \<in> set (cp_class plan ! u))"
proof -
  from run obtain train_set val_set test_set plan tr va te where
    d: "get_datasets ext data_name 10000 = Inr (train_set, val_set, test_set)"
    and p: "gen_classes_per_node rnd unif train_set num_users classes_per_user (6/10) (4/10)
              = Inr plan"
    and tr: "gen_data_split (shuf 0) train_set num_users plan = Inr tr"
    and va: "gen_data_split (shuf 1) val_set num_users plan = Inr va"
    and te: "gen_data_split (shuf 2) test_set num_users plan = Inr te"
    and l: "loaders = [make_loaders bz True tr, make_loaders bz False va, make_loaders bz False te]"
    by (auto simp: gen_random_loaders_def split: sum.splits)
  have foot: "\<exists>num_classes num_samples labels.
                 get_num_classes_samples ([train_set, val_set, test_set] ! s)
                   = Inr (num_classes, num_samples, labels)
               \<and> j < length labels \<and> labels ! j \<in> set (cp_class plan ! u)"
    if s: "s < 3" and u: "u < num_users" and j: "j \<in> set (loader_indices (loaders ! s ! u))"
    for s u j
  proof -
    consider "s = 0" | "s = 1" | "s = 2" using s by linarith
    then show ?thesis
    proof cases
      case 1
      have "j \<in> set (tr ! u)"
        using j u gen_data_split_length[OF tr] by (simp add: l 1 make_loaders_indices)
      from gen_data_split_labels[OF perm tr u this] show ?thesis by (simp add: 1)
    next
      case 2
      have "j \<in> set (va ! u)"
        using j u gen_data_split_length[OF va] by (simp add: l 2 make_loaders_indices)
      from gen_data_split_labels[OF perm va u this] show ?thesis by (simp add: 2)
    next
      case 3
      have "j \<in> set (te ! u)"
        using j u gen_data_split_length[OF te] by (simp add: l 3 make_loaders_indices)
      from gen_data_split_labels[OF perm te u this] show ?thesis by (simp add: 3)
    qed
  qed
  have "length loaders = 3" by (simp add: l)
  with d p foot show ?thesis by blast
qed

theorem gen_random_loaders_class_footprint_witness:
  "gen_random_loaders small_world (\<lambda>k. k) (\<lambda>i k. 1 / 2) (\<lambda>s i. rev) ''cifar10'' 2 8 1
     = Inr [[\<lparr>loader_indices = [2, 0], loader_batch_size = 8, loader_shuffle = True\<rparr>,
             \<lparr>loader_indices = [3, 1], loader_batch_size = 8, loader_shuffle = True\<rparr>],
            [\<lparr>loader_indices = [1], loader_batch_size = 8, loader_shuffle = False\<rparr>,
             \<lparr>loader_indices = [0], loader_batch_size = 8, loader_shuffle = False\<rparr>],
            [\<lparr>loader_indices = [5, 2, 0], loader_batch_size = 8, loader_shuffle = False\<rparr>,
             \<lparr>loader_indices = [4, 3, 1], loader_batch_size = 8, loader_shuffle = False\<rparr>]]
   \<and> (\<exists>train_set val_set test_set plan num_classes num_samples labels.
           get_datasets small_world ''cifar10'' 10000 = Inr (train_set, val_set, test_set)
         \<and> gen_classes_per_node (\<lambda>k. k) (\<lambda>i k. 1 / 2) train_set 2 1 (6/10) (4/10) = Inr plan
         \<and> get_num_classes_samples ([train_set, val_set, test_set] ! 2)
             = Inr (num_classes, num_samples, labels)
         \<and> 4 < length labels \<and> labels ! 4 \<in> set (cp_class plan ! 1))"
proof -
  have p: "\<And>(s :: nat) (i :: nat) xs :: nat list. mset ((\<lambda>s i. rev) s i xs) = mset xs" by simp
  have r: "gen_random_loaders small_world (\<lambda>k. k) (\<lambda>i k. 1 / 2) (\<lambda>s i. rev) ''cifar10'' 2 8 1
     = Inr [[\<lparr>loader_indices = [2, 0], loader_batch_size = 8, loader_shuffle = True\<rparr>,
             \<lparr>loader_indices = [3, 1], loader_batch_size = 8, loader_shuffle = True\<rparr>],
            [\<lparr>loader_indices = [1], loader_batch_size = 8, loader_shuffle = False\<rparr>,
             \<lparr>loader_indices = [0], loader_batch_size = 8, loader_shuffle = False\<rparr>],
            [\<lparr>loader_indices = [5, 2, 0], loader_batch_size = 8, loader_shuffle = False\<rparr>,
             \<lparr>loader_indices = [4, 3, 1], loader_batch_size = 8, loader_shuffle = False\<rparr>]]"
    by code_simp
  have m: "(4 :: nat) \<in> set (loader_indices ([[\<lparr>loader_indices = [2, 0], loader_batch_size = 8, loader_shuffle = True\<rparr>,
             \<lparr>loader_indices = [3, 1], loader_batch_size = 8, loader_shuffle = True\<rparr>],
            [\<lparr>loader_indices = [1], loader_batch_size = 8, loader_shuffle = False\<rparr>,
             \<lparr>loader_indices = [0], loader_batch_size = 8, loader_shuffle = False\<rparr>],
            [\<lparr>loader_indices = [5, 2, 0], loader_batch_size = 8, loader_shuffle = False\<rparr>,
             \<lparr>loader_indices = [4, 3, 1], loader_batch_size = 8, loader_shuffle = False\<rparr>]] ! 2 ! 1))"
    by simp
  from gen_random_loaders_class_footprint [OF p r] obtain train_set val_set test_set plan where
    d: "get_datasets small_world ''cifar10'' 10000 = Inr (train_set, val_set, test_set)"
    and g: "gen_classes_per_node (\<lambda>k. k) (\<lambda>i k. 1 / 2) train_set 2 1 (6/10) (4/10) = Inr plan"
    and f: "\<forall>s<3. \<forall>u<2. \<forall>j\<in>set (loader_indices ([[\<lparr>loader_indices = [2, 0], loader_batch_size = 8, loader_shuffle = True\<rparr>,
             \<lparr>loader_indices = [3, 1], loader_batch_size = 8, loader_shuffle = True\<rparr>],
            [\<lparr>loader_indices = [1], loader_batch_size = 8, loader_shuffle = False\<rparr>,
             \<lparr>loader_indices = [0], loader_batch_size = 8, loader_shuffle = False\<rparr>],
            [\<lparr>loader_indices = [5, 2, 0], loader_batch_size = 8, loader_shuffle = False\<rparr>,
             \<lparr>loader_indices = [4, 3, 1], loader_batch_size = 8, loader_shuffle = False\<rparr>]] ! s ! u)).
               \<exists>num_classes num_samples labels.
                 get_num_classes_samples ([train_set, val_set, test_set] ! s)
                   = Inr (num_classes, num_samples, labels)
               \<and> j < length labels \<and> labels ! j \<in> set (cp_class plan ! u)"
    by blast
  have s: "(2 :: nat) < 3" and u: "(1 :: nat) < 2" by simp_all
  from f s u m have "\<exists>num_classes num_samples labels.
                 get_num_classes_samples ([train_set, val_set, test_set] ! 2)
                   = Inr (num_classes, num_samples, labels)
               \<and> 4 < length labels \<and> labels ! 4 \<in> set (cp_class plan ! 1)"
    by blast
  with d g have "\<exists>train_set val_set test_set plan num_classes num_samples labels.
           get_datasets small_world ''cifar10'' 10000 = Inr (train_set, val_set, test_set)
         \<and> gen_classes_per_node (\<lambda>k. k) (\<lambda>i k. 1 / 2) train_set 2 1 (6/10) (4/10) = Inr plan
         \<and> get_num_classes_samples ([train_set, val_set, test_set] ! 2)
             = Inr (num_classes, num_samples, labels)
         \<and> 4 < length labels \<and> labels ! 4 \<in> set (cp_class plan ! 1)"
    by blast
  with r show ?thesis by (rule conjI)
qed

section \<open>Properties of \<open>gen_classes_per_node\<close>\<close>

subsection \<open>What a returning run has done\<close>

lemma fold_max_Max: "fold max xs (x :: int) = Max (set (x # xs))"
  by (simp only: Max.set_eq_fold)

lemma max_class_counts_eq:
  assumes "cd \<noteq> []"
  shows "max_class_counts cd c
           = Inr (filter (\<lambda>i. i \<notin> set c)
                    (filter (\<lambda>i. cd_count (cd ! i) = Max (set (map cd_count cd))) [0..<length cd]))"
proof -
  obtain y ys where m: "map cd_count cd = y # ys" using assms by (cases cd) auto
  have "fold max ys y = Max (set (map cd_count cd))" by (simp only: m fold_max_Max)
  then show ?thesis by (simp add: max_class_counts_def m)
qed

lemma max_class_counts_result:
  assumes "max_class_counts cd c = Inr cands" and "x \<in> set cands"
  shows "x < length cd \<and> x \<notin> set c"
proof (cases "cd = []")
  case True
  then show ?thesis using assms by (simp add: max_class_counts_def)
next
  case False
  from max_class_counts_eq[OF False, of c] assms show ?thesis by auto
qed

lemma select_classes_Suc:
  assumes "select_classes rnd k (Suc n) cd c = Inr r"
  shows "\<exists>cands. max_class_counts cd c = Inr cands \<and> cands \<noteq> []
           \<and> select_classes rnd (Suc k) n
                (cd[cands ! (rnd k mod length cands)
                      := (cd ! (cands ! (rnd k mod length cands)))
                           \<lparr>cd_count := cd_count (cd ! (cands ! (rnd k mod length cands))) - 1\<rparr>])
                (c @ [cands ! (rnd k mod length cands)]) = Inr r"
proof (cases "max_class_counts cd c")
  case (Inl e)
  then show ?thesis using assms by simp
next
  case (Inr cands)
  show ?thesis
  proof (cases "cands = []")
    case True
    then show ?thesis using assms Inr by simp
  next
    case False
    then show ?thesis using assms Inr by (simp add: Let_def)
  qed
qed


lemma select_classes_result:
  "select_classes rnd k n cd c = Inr (cd', c') \<Longrightarrow>
   length cd' = length cd \<and>
   (\<exists>new. c' = c @ new \<and> length new = n \<and> distinct new \<and> set new \<inter> set c = {}
        \<and> (\<forall>x\<in>set new. x < length cd)
        \<and> (\<forall>i<length cd. cd_prob (cd' ! i) = cd_prob (cd ! i)
               \<and> cd_count (cd' ! i) = cd_count (cd ! i) - (if i \<in> set new then 1 else 0)))"
proof (induction n arbitrary: k cd c)
  case 0
  then show ?case by simp
next
  case (Suc n)
  from select_classes_Suc[OF Suc.prems] obtain cands where
    m: "max_class_counts cd c = Inr cands" and ne: "cands \<noteq> []"
    and r0: "select_classes rnd (Suc k) n
                (cd[cands ! (rnd k mod length cands)
                      := (cd ! (cands ! (rnd k mod length cands)))
                           \<lparr>cd_count := cd_count (cd ! (cands ! (rnd k mod length cands))) - 1\<rparr>])
                (c @ [cands ! (rnd k mod length cands)]) = Inr (cd', c')"
    by blast
  define x where "x = cands ! (rnd k mod length cands)"
  define cd1 where "cd1 = cd[x := (cd ! x)\<lparr>cd_count := cd_count (cd ! x) - 1\<rparr>]"
  have xin: "x \<in> set cands" using ne by (simp add: x_def)
  from max_class_counts_result[OF m xin] have xl: "x < length cd" and xc: "x \<notin> set c" by simp_all
  have r: "select_classes rnd (Suc k) n cd1 (c @ [x]) = Inr (cd', c')"
    using r0 by (simp only: x_def cd1_def)
  from Suc.IH[OF r] obtain new where
    l: "length cd' = length cd1" and c': "c' = (c @ [x]) @ new" and ln: "length new = n"
    and d: "distinct new" and dj: "set new \<inter> set (c @ [x]) = {}"
    and rg: "\<forall>y\<in>set new. y < length cd1"
    and cn: "\<forall>i<length cd1. cd_prob (cd' ! i) = cd_prob (cd1 ! i)
               \<and> cd_count (cd' ! i) = cd_count (cd1 ! i) - (if i \<in> set new then 1 else 0)"
    by blast
  have l1: "length cd1 = length cd" by (simp add: cd1_def)
  have xn: "x \<notin> set new" using dj by auto
  have 1: "c' = c @ (x # new)" using c' by simp
  have 2: "length (x # new) = Suc n" using ln by simp
  have 3: "distinct (x # new)" using d xn by simp
  have 4: "set (x # new) \<inter> set c = {}" using dj xc by auto
  have 5: "\<forall>y\<in>set (x # new). y < length cd" using rg xl l1 by simp
  have 6: "\<forall>i<length cd. cd_prob (cd' ! i) = cd_prob (cd ! i)
               \<and> cd_count (cd' ! i) = cd_count (cd ! i) - (if i \<in> set (x # new) then 1 else 0)"
  proof (intro allI impI)
    fix i assume i: "i < length cd"
    from cn i l1 have ci: "cd_prob (cd' ! i) = cd_prob (cd1 ! i)"
      "cd_count (cd' ! i) = cd_count (cd1 ! i) - (if i \<in> set new then 1 else 0)" by simp_all
    show "cd_prob (cd' ! i) = cd_prob (cd ! i)
               \<and> cd_count (cd' ! i) = cd_count (cd ! i) - (if i \<in> set (x # new) then 1 else 0)"
    proof (cases "i = x")
      case True
      have "cd_prob (cd1 ! x) = cd_prob (cd ! x)" "cd_count (cd1 ! x) = cd_count (cd ! x) - 1"
        using xl by (simp_all add: cd1_def)
      then show ?thesis using ci xn True by simp
    next
      case False
      have "cd1 ! i = cd ! i" using False by (simp add: cd1_def)
      then show ?thesis using ci False by simp
    qed
  qed
  have "length cd' = length cd" using l l1 by simp
  moreover have "\<exists>new. c' = c @ new \<and> length new = Suc n \<and> distinct new \<and> set new \<inter> set c = {}
        \<and> (\<forall>x\<in>set new. x < length cd)
        \<and> (\<forall>i<length cd. cd_prob (cd' ! i) = cd_prob (cd ! i)
               \<and> cd_count (cd' ! i) = cd_count (cd ! i) - (if i \<in> set new then 1 else 0))"
    using 1 2 3 4 5 6 by (intro exI[of _ "x # new"] conjI)
  ultimately show ?case by (rule conjI)
qed

lemma mset_butlast_last: "xs \<noteq> [] \<Longrightarrow> mset xs = mset (butlast xs) + {#last xs#}"
  by (induction xs) auto

lemma pop_probs_result:
  "pop_probs cd c = Inr (cd', ps) \<Longrightarrow>
   length ps = length c \<and> length cd' = length cd \<and> (\<forall>x\<in>set c. x < length cd) \<and>
   (\<forall>i<length cd. cd_count (cd' ! i) = cd_count (cd ! i)
      \<and> mset (cd_prob (cd ! i))
          = mset (cd_prob (cd' ! i)) + mset (map snd (filter (\<lambda>cp. fst cp = i) (zip c ps))))"
proof (induction c arbitrary: cd ps)
  case Nil
  then show ?case by simp
next
  case (Cons x c)
  from Cons.prems have xl: "x < length cd" by (auto split: if_splits)
  from Cons.prems xl obtain p pl where pp: "cd_prob (cd ! x) = p # pl"
    by (auto split: list.splits)
  define q where "q = last (p # pl)"
  define bl where "bl = butlast (p # pl)"
  define cd1 where "cd1 = cd[x := (cd ! x)\<lparr>cd_prob := bl\<rparr>]"
  from Cons.prems xl pp obtain qs where
    r: "pop_probs cd1 c = Inr (cd', qs)" and ps: "ps = q # qs"
    unfolding cd1_def q_def bl_def
    by (auto simp del: butlast.simps last.simps split: sum.splits)
  have l1: "length cd1 = length cd" by (simp add: cd1_def)
  from Cons.IH[OF r] have
    a: "length qs = length c" and b: "length cd' = length cd1" and rg: "\<forall>y\<in>set c. y < length cd1"
    and e: "\<forall>i<length cd1. cd_count (cd' ! i) = cd_count (cd1 ! i)
      \<and> mset (cd_prob (cd1 ! i))
          = mset (cd_prob (cd' ! i)) + mset (map snd (filter (\<lambda>cp. fst cp = i) (zip c qs)))"
    by simp_all
  have m: "mset (cd_prob (cd ! x)) = mset bl + {#q#}"
    unfolding pp q_def bl_def by (rule mset_butlast_last) simp
  have "\<forall>i<length cd. cd_count (cd' ! i) = cd_count (cd ! i)
      \<and> mset (cd_prob (cd ! i))
          = mset (cd_prob (cd' ! i)) + mset (map snd (filter (\<lambda>cp. fst cp = i) (zip (x # c) ps)))"
  proof (intro allI impI)
    fix i assume i: "i < length cd"
    from e i l1 have ei: "cd_count (cd' ! i) = cd_count (cd1 ! i)"
      "mset (cd_prob (cd1 ! i))
          = mset (cd_prob (cd' ! i)) + mset (map snd (filter (\<lambda>cp. fst cp = i) (zip c qs)))"
      by simp_all
    show "cd_count (cd' ! i) = cd_count (cd ! i)
      \<and> mset (cd_prob (cd ! i))
          = mset (cd_prob (cd' ! i)) + mset (map snd (filter (\<lambda>cp. fst cp = i) (zip (x # c) ps)))"
    proof (cases "i = x")
      case True
      have c1: "cd_count (cd1 ! x) = cd_count (cd ! x)" and p1: "cd_prob (cd1 ! x) = bl"
        using xl by (simp_all add: cd1_def)
      show ?thesis using ei[unfolded True c1 p1] m by (simp add: True ps)
    next
      case False
      have c1: "cd1 ! i = cd ! i" using False by (simp add: cd1_def)
      show ?thesis using ei False by (simp add: c1 ps)
    qed
  qed
  then show ?case using a b l1 rg xl ps by simp
qed

lemma assign_classes_Suc:
  assumes "assign_classes rnd k (Suc n) cpu cd parts = Inr r"
  shows "\<exists>cd1 c cd2 ps.
           select_classes rnd k cpu cd [] = Inr (cd1, c)
         \<and> pop_probs cd1 c = Inr (cd2, ps)
         \<and> assign_classes rnd (k + cpu) n cpu cd2
              (parts\<lparr>cp_class := cp_class parts @ [c], cp_prob := cp_prob parts @ [ps]\<rparr>) = Inr r"
proof (cases "select_classes rnd k cpu cd []")
  case (Inl e)
  then show ?thesis using assms by simp
next
  case (Inr a)
  obtain cd1 c where a: "a = (cd1, c)" by (cases a)
  show ?thesis
  proof (cases "pop_probs cd1 c")
    case (Inl e)
    then show ?thesis using assms Inr a by simp
  next
    case pr: (Inr b)
    obtain cd2 ps where b: "b = (cd2, ps)" by (cases b)
    show ?thesis using assms Inr a pr b by simp
  qed
qed

lemma count_list_distinct: "distinct xs \<Longrightarrow> count_list xs i = (if i \<in> set xs then 1 else 0)"
  by (induction xs) auto

lemma count_list_concat_Cons:
  "count_list (concat (c # cs)) i = count_list c i + count_list (concat cs) i"
  by simp

lemma popped_Cons:
  "popped i (c # cs) (ps # pss)
     = mset (map snd (filter (\<lambda>cp. fst cp = i) (zip c ps))) + popped i cs pss"
  by (simp add: popped_def)

lemma assign_classes_result:
  "assign_classes rnd k n cpu cd parts = Inr (cd', parts') \<Longrightarrow>
   length cd' = length cd \<and>
   (\<exists>cs pss. cp_class parts' = cp_class parts @ cs \<and> cp_prob parts' = cp_prob parts @ pss
      \<and> length cs = n \<and> length pss = n
      \<and> (\<forall>u<n. length (cs ! u) = cpu \<and> distinct (cs ! u) \<and> length (pss ! u) = cpu
                \<and> (\<forall>x\<in>set (cs ! u). x < length cd))
      \<and> (\<forall>i<length cd.
            cd_count (cd' ! i) = cd_count (cd ! i) - int (count_list (concat cs) i)
          \<and> mset (cd_prob (cd ! i)) = mset (cd_prob (cd' ! i)) + popped i cs pss))"
proof (induction n arbitrary: k cd parts)
  case 0
  then have e: "cd' = cd" "parts' = parts" by simp_all
  show ?case
    unfolding e
    by (intro conjI exI[of _ "[]"]) (simp_all add: popped_def)
next
  case (Suc n)
  from assign_classes_Suc[OF Suc.prems] obtain cd1 c cd2 ps where
    s: "select_classes rnd k cpu cd [] = Inr (cd1, c)"
    and p: "pop_probs cd1 c = Inr (cd2, ps)"
    and r: "assign_classes rnd (k + cpu) n cpu cd2
              (parts\<lparr>cp_class := cp_class parts @ [c], cp_prob := cp_prob parts @ [ps]\<rparr>)
              = Inr (cd', parts')"
    by blast
  from select_classes_result[OF s] have
    l1: "length cd1 = length cd" and lc: "length c = cpu" and dc: "distinct c"
    and rc: "\<forall>x\<in>set c. x < length cd"
    and s1: "\<forall>i<length cd. cd_prob (cd1 ! i) = cd_prob (cd ! i)
               \<and> cd_count (cd1 ! i) = cd_count (cd ! i) - (if i \<in> set c then 1 else 0)"
    by auto
  from pop_probs_result[OF p] have
    lp: "length ps = length c" and l2: "length cd2 = length cd1"
    and p1: "\<forall>i<length cd1. cd_count (cd2 ! i) = cd_count (cd1 ! i)
      \<and> mset (cd_prob (cd1 ! i))
          = mset (cd_prob (cd2 ! i)) + mset (map snd (filter (\<lambda>cp. fst cp = i) (zip c ps)))"
    by simp_all
  from Suc.IH[OF r] obtain cs pss where
    l3: "length cd' = length cd2"
    and e1: "cp_class parts' = (cp_class parts @ [c]) @ cs"
    and e2: "cp_prob parts' = (cp_prob parts @ [ps]) @ pss"
    and n1: "length cs = n" and n2: "length pss = n"
    and u1: "\<forall>u<n. length (cs ! u) = cpu \<and> distinct (cs ! u) \<and> length (pss ! u) = cpu
                \<and> (\<forall>x\<in>set (cs ! u). x < length cd2)"
    and i1: "\<forall>i<length cd2.
            cd_count (cd' ! i) = cd_count (cd2 ! i) - int (count_list (concat cs) i)
          \<and> mset (cd_prob (cd2 ! i)) = mset (cd_prob (cd' ! i)) + popped i cs pss"
    by auto
  have 1: "cp_class parts' = cp_class parts @ (c # cs)" using e1 by simp
  have 2: "cp_prob parts' = cp_prob parts @ (ps # pss)" using e2 by simp
  have 3: "length (c # cs) = Suc n" using n1 by simp
  have 4: "length (ps # pss) = Suc n" using n2 by simp
  have 5: "\<forall>u<Suc n. length ((c # cs) ! u) = cpu \<and> distinct ((c # cs) ! u)
                \<and> length ((ps # pss) ! u) = cpu
                \<and> (\<forall>x\<in>set ((c # cs) ! u). x < length cd)"
  proof (intro allI impI)
    fix u assume u: "u < Suc n"
    show "length ((c # cs) ! u) = cpu \<and> distinct ((c # cs) ! u)
                \<and> length ((ps # pss) ! u) = cpu
                \<and> (\<forall>x\<in>set ((c # cs) ! u). x < length cd)"
    proof (cases u)
      case 0
      then show ?thesis using lc dc lp rc by simp
    next
      case (Suc u')
      then have "u' < n" using u by simp
      with u1 l2 l1 show ?thesis by (simp add: Suc)
    qed
  qed
  have 6: "\<forall>i<length cd.
            cd_count (cd' ! i) = cd_count (cd ! i) - int (count_list (concat (c # cs)) i)
          \<and> mset (cd_prob (cd ! i)) = mset (cd_prob (cd' ! i)) + popped i (c # cs) (ps # pss)"
  proof (intro allI impI)
    fix i assume i: "i < length cd"
    from s1 i have a: "cd_prob (cd1 ! i) = cd_prob (cd ! i)"
      "cd_count (cd1 ! i) = cd_count (cd ! i) - (if i \<in> set c then 1 else 0)" by simp_all
    from p1 i l1 have b: "cd_count (cd2 ! i) = cd_count (cd1 ! i)"
      "mset (cd_prob (cd1 ! i))
          = mset (cd_prob (cd2 ! i)) + mset (map snd (filter (\<lambda>cp. fst cp = i) (zip c ps)))"
      by simp_all
    from i1 i l1 l2 have d: "cd_count (cd' ! i) = cd_count (cd2 ! i) - int (count_list (concat cs) i)"
      "mset (cd_prob (cd2 ! i)) = mset (cd_prob (cd' ! i)) + popped i cs pss" by simp_all
    have "cd_count (cd' ! i) = cd_count (cd ! i) - int (count_list (concat (c # cs)) i)"
      using a(2) b(1) d(1) by (simp add: count_list_distinct[OF dc])
    moreover have "mset (cd_prob (cd ! i)) = mset (cd_prob (cd' ! i)) + popped i (c # cs) (ps # pss)"
      using a(1) b(2) d(2) by (simp add: popped_Cons)
    ultimately show "cd_count (cd' ! i) = cd_count (cd ! i) - int (count_list (concat (c # cs)) i)
          \<and> mset (cd_prob (cd ! i)) = mset (cd_prob (cd' ! i)) + popped i (c # cs) (ps # pss)"
      by (rule conjI)
  qed
  have "length cd' = length cd" using l1 l2 l3 by simp
  moreover have "\<exists>cs pss. cp_class parts' = cp_class parts @ cs \<and> cp_prob parts' = cp_prob parts @ pss
      \<and> length cs = Suc n \<and> length pss = Suc n
      \<and> (\<forall>u<Suc n. length (cs ! u) = cpu \<and> distinct (cs ! u) \<and> length (pss ! u) = cpu
                \<and> (\<forall>x\<in>set (cs ! u). x < length cd))
      \<and> (\<forall>i<length cd.
            cd_count (cd' ! i) = cd_count (cd ! i) - int (count_list (concat cs) i)
          \<and> mset (cd_prob (cd ! i)) = mset (cd_prob (cd' ! i)) + popped i cs pss)"
    using 1 2 3 4 5 6 by (intro exI[of _ "c # cs"] exI[of _ "ps # pss"] conjI)
  ultimately show ?case by (rule conjI)
qed

lemma gen_classes_per_node_state_unfold:
  assumes "gen_classes_per_node_state rnd unif dataset num_users cpu high low = Inr (cd', plan)"
  shows "\<exists>K ns labels. get_num_classes_samples dataset = Inr (K, ns, labels) \<and> K \<noteq> 0
           \<and> (cpu * num_users) mod K = 0
           \<and> assign_classes rnd 0 num_users cpu
                (init_class_dict unif low high K ((cpu * num_users) div K))
                \<lparr>cp_class = [], cp_prob = []\<rparr> = Inr (cd', plan)"
proof (cases "get_num_classes_samples dataset")
  case (Inl e)
  then show ?thesis using assms by (simp add: gen_classes_per_node_state_def)
next
  case (Inr t)
  obtain K ns labels where t: "t = (K, ns, labels)" by (cases t)
  show ?thesis using assms Inr t
    by (simp add: gen_classes_per_node_state_def Let_def split: if_splits)
qed

lemma gen_classes_per_node_unfold:
  assumes "gen_classes_per_node rnd unif dataset num_users cpu high low = Inr plan"
  shows "\<exists>cd'. gen_classes_per_node_state rnd unif dataset num_users cpu high low = Inr (cd', plan)"
proof (cases "gen_classes_per_node_state rnd unif dataset num_users cpu high low")
  case (Inl e)
  then show ?thesis using assms by (simp add: gen_classes_per_node_def)
next
  case (Inr t)
  obtain cd' p where t: "t = (cd', p)" by (cases t)
  show ?thesis using assms Inr t by (simp add: gen_classes_per_node_def)
qed

lemma init_class_dict_facts:
  "length (init_class_dict unif low high K n) = K"
  "i < K \<Longrightarrow> cd_count (init_class_dict unif low high K n ! i) = int n"
  "i < K \<Longrightarrow> length (cd_prob (init_class_dict unif low high K n ! i)) = n"
  "i < K \<Longrightarrow> cd_prob (init_class_dict unif low high K n ! i) = probs_norm (uniform unif low high i n)"
  by (simp_all add: init_class_dict_def probs_norm_def uniform_def Let_def)

text \<open>
  C4. In every plan \<open>gen_classes_per_node\<close> returns there is one entry per user, and each
  entry lists exactly \<open>classes_per_user\<close> class ids, pairwise distinct, beside a
  proportion list of the same length.
\<close>

theorem gen_classes_per_node_entries:
  assumes "gen_classes_per_node rnd unif dataset num_users classes_per_user high_prob low_prob
             = Inr plan"
  shows "length (cp_class plan) = num_users \<and> length (cp_prob plan) = num_users
       \<and> (\<forall>u<num_users. length (cp_class plan ! u) = classes_per_user
                        \<and> distinct (cp_class plan ! u)
                        \<and> length (cp_prob plan ! u) = classes_per_user)"
proof -
  from gen_classes_per_node_unfold[OF assms] obtain cd' where
    st: "gen_classes_per_node_state rnd unif dataset num_users classes_per_user high_prob low_prob
           = Inr (cd', plan)" by blast
  from gen_classes_per_node_state_unfold[OF st] obtain K where
    a: "assign_classes rnd 0 num_users classes_per_user
          (init_class_dict unif low_prob high_prob K ((classes_per_user * num_users) div K))
          \<lparr>cp_class = [], cp_prob = []\<rparr> = Inr (cd', plan)" by blast
  from assign_classes_result[OF a] obtain cs pss where
    "cp_class plan = cs" "cp_prob plan = pss" "length cs = num_users" "length pss = num_users"
    "\<forall>u<num_users. length (cs ! u) = classes_per_user \<and> distinct (cs ! u)
        \<and> length (pss ! u) = classes_per_user
        \<and> (\<forall>x\<in>set (cs ! u).
              x < length (init_class_dict unif low_prob high_prob K
                           ((classes_per_user * num_users) div K)))"
    by auto
  then show ?thesis by simp
qed

theorem gen_classes_per_node_entries_witness:
  "gen_classes_per_node (\<lambda>k. k) (\<lambda>i k. 1 / 2) (Targets [0, 1, 2, 0, 1, 2]) 3 2 (6/10) (4/10)
     = Inr \<lparr>cp_class = [[0, 2], [1, 2], [0, 1]],
             cp_prob = [[Finite (1 / 2), Finite (1 / 2)], [Finite (1 / 2), Finite (1 / 2)],
                        [Finite (1 / 2), Finite (1 / 2)]]\<rparr>
   \<and> length (cp_class \<lparr>cp_class = [[0, 2], [1, 2], [0, 1]],
             cp_prob = [[Finite (1 / 2), Finite (1 / 2)], [Finite (1 / 2), Finite (1 / 2)],
                        [Finite (1 / 2), Finite (1 / 2)]]\<rparr>) = 3
   \<and> length (cp_prob \<lparr>cp_class = [[0, 2], [1, 2], [0, 1]],
             cp_prob = [[Finite (1 / 2), Finite (1 / 2)], [Finite (1 / 2), Finite (1 / 2)],
                        [Finite (1 / 2), Finite (1 / 2)]]\<rparr>) = 3
   \<and> length (cp_class \<lparr>cp_class = [[0, 2], [1, 2], [0, 1]],
             cp_prob = [[Finite (1 / 2), Finite (1 / 2)], [Finite (1 / 2), Finite (1 / 2)],
                        [Finite (1 / 2), Finite (1 / 2)]]\<rparr> ! 1) = 2
   \<and> distinct (cp_class \<lparr>cp_class = [[0, 2], [1, 2], [0, 1]],
             cp_prob = [[Finite (1 / 2), Finite (1 / 2)], [Finite (1 / 2), Finite (1 / 2)],
                        [Finite (1 / 2), Finite (1 / 2)]]\<rparr> ! 1)
   \<and> length (cp_prob \<lparr>cp_class = [[0, 2], [1, 2], [0, 1]],
             cp_prob = [[Finite (1 / 2), Finite (1 / 2)], [Finite (1 / 2), Finite (1 / 2)],
                        [Finite (1 / 2), Finite (1 / 2)]]\<rparr> ! 1) = 2"
proof -
  have r: "gen_classes_per_node (\<lambda>k. k) (\<lambda>i k. 1 / 2) (Targets [0, 1, 2, 0, 1, 2]) 3 2
             (6/10) (4/10)
     = Inr \<lparr>cp_class = [[0, 2], [1, 2], [0, 1]],
             cp_prob = [[Finite (1 / 2), Finite (1 / 2)], [Finite (1 / 2), Finite (1 / 2)],
                        [Finite (1 / 2), Finite (1 / 2)]]\<rparr>"
    by code_simp
  have u: "(1 :: nat) < 3" by simp
  from gen_classes_per_node_entries [OF r] u r show ?thesis by blast
qed

lemma zip_filter_count:
  "length c = length ps \<Longrightarrow> length (filter (\<lambda>cp. fst cp = i) (zip c ps)) = count_list c i"
  by (induction c ps rule: list_induct2) auto

lemma popped_size:
  "length cs = length pss \<Longrightarrow> (\<forall>u<length cs. length (cs ! u) = length (pss ! u)) \<Longrightarrow>
   size (popped i cs pss) = count_list (concat cs) i"
proof (induction cs pss rule: list_induct2)
  case Nil
  then show ?case by (simp add: popped_def)
next
  case (Cons c cs ps pss)
  have h: "length c = length ps" using Cons.prems by (metis length_greater_0_conv list.distinct(1) nth_Cons_0 length_Cons zero_less_Suc)
  have t: "\<forall>u<length cs. length (cs ! u) = length (pss ! u)"
  proof (intro allI impI)
    fix u assume "u < length cs"
    then have "Suc u < length (c # cs)" by simp
    with Cons.prems have "length ((c # cs) ! Suc u) = length ((ps # pss) ! Suc u)" by blast
    then show "length (cs ! u) = length (pss ! u)" by simp
  qed
  have "size (popped i (c # cs) (ps # pss))
          = size (mset (map snd (filter (\<lambda>cp. fst cp = i) (zip c ps)))) + size (popped i cs pss)"
    by (simp only: popped_Cons size_union)
  also have "size (mset (map snd (filter (\<lambda>cp. fst cp = i) (zip c ps))))
          = length (filter (\<lambda>cp. fst cp = i) (zip c ps))"
    by (simp only: size_mset length_map)
  finally show ?case using Cons.IH[OF t] zip_filter_count[OF h, of i] by simp
qed

lemma sum_count_list:
  "(\<forall>x\<in>set xs. x < (K :: nat)) \<Longrightarrow> (\<Sum>i<K. count_list xs i) = length xs"
proof (induction xs)
  case Nil
  then show ?case by simp
next
  case (Cons x xs)
  have x: "x < K" using Cons.prems by simp
  have "(\<Sum>i<K. count_list (x # xs) i) = (\<Sum>i<K. count_list xs i + (if x = i then 1 else 0))"
    by (rule sum.cong) auto
  also have "\<dots> = (\<Sum>i<K. count_list xs i) + (\<Sum>i<K. if x = i then 1 else 0)"
    by (rule sum.distrib)
  also have "(\<Sum>i<K. if x = i then 1 else 0) = (1 :: nat)" using x by simp
  finally show ?case using Cons by simp
qed

lemma length_concat_const:
  "(\<forall>c\<in>set cs. length c = m) \<Longrightarrow> length (concat cs) = length cs * m"
  by (induction cs) auto

lemma sum_bounded_exact:
  fixes f :: "nat \<Rightarrow> nat"
  assumes "\<forall>i<K. f i \<le> c" and "(\<Sum>i<K. f i) = c * K" and "j < K"
  shows "f j = c"
proof (rule ccontr)
  assume "f j \<noteq> c"
  then have lt: "f j < c" using assms(1,3) by (simp add: le_neq_implies_less)
  have "(\<Sum>i<K. f i) < (\<Sum>i<K. c)"
  proof (rule sum_strict_mono_ex1)
    show "finite {..<K}" by simp
    show "\<forall>x\<in>{..<K}. f x \<le> c" using assms(1) by simp
    show "\<exists>a\<in>{..<K}. f a < c" using lt assms(3) by auto
  qed
  then show False using assms(2) by simp
qed


text \<open>
  A run that returns under the divisibility precondition has used up every budget: each
  pop needs a proportion left, so no class is chosen more than \<open>count_per_class\<close> times,
  and the choices total \<open>count_per_class * num_classes\<close>.
\<close>

lemma gen_classes_per_node_state_budget:
  assumes g: "get_num_classes_samples dataset = Inr (num_classes, num_samples, labels)"
    and dv: "(classes_per_user * num_users) mod num_classes = 0"
    and run: "gen_classes_per_node_state rnd unif dataset num_users classes_per_user
                high_prob low_prob = Inr (class_dict, plan)"
    and c: "c < num_classes"
  shows "count_list (concat (cp_class plan)) c = (classes_per_user * num_users) div num_classes
       \<and> cd_count (class_dict ! c) = 0"
proof -
  define cpc where "cpc = (classes_per_user * num_users) div num_classes"
  define init where "init = init_class_dict unif low_prob high_prob num_classes cpc"
  from gen_classes_per_node_state_unfold[OF run] g have
    a: "assign_classes rnd 0 num_users classes_per_user init \<lparr>cp_class = [], cp_prob = []\<rparr>
          = Inr (class_dict, plan)"
    by (auto simp: init_def cpc_def)
  have li: "length init = num_classes" by (simp add: init_def init_class_dict_facts)
  from assign_classes_result[OF a] obtain cs pss where
    cs: "cp_class plan = cs" and n1: "length cs = num_users" and n2: "length pss = num_users"
    and u: "\<forall>u<num_users. length (cs ! u) = classes_per_user \<and> distinct (cs ! u)
              \<and> length (pss ! u) = classes_per_user \<and> (\<forall>x\<in>set (cs ! u). x < length init)"
    and i: "\<forall>i<length init.
              cd_count (class_dict ! i) = cd_count (init ! i) - int (count_list (concat cs) i)
            \<and> mset (cd_prob (init ! i)) = mset (cd_prob (class_dict ! i)) + popped i cs pss"
    by auto
  have ps: "size (popped i cs pss) = count_list (concat cs) i" for i
    by (rule popped_size) (use n1 n2 u in simp_all)
  have le: "\<forall>i<num_classes. count_list (concat cs) i \<le> cpc"
  proof (intro allI impI)
    fix j assume j: "j < num_classes"
    from i j li have "mset (cd_prob (init ! j)) = mset (cd_prob (class_dict ! j)) + popped j cs pss"
      by simp
    then have "size (mset (cd_prob (init ! j)))
                 = size (mset (cd_prob (class_dict ! j))) + size (popped j cs pss)"
      by (simp only: size_union)
    moreover have "size (mset (cd_prob (init ! j))) = cpc"
      by (simp only: size_mset init_def init_class_dict_facts(3)[OF j])
    ultimately show "count_list (concat cs) j \<le> cpc" using ps[of j] by simp
  qed
  have rg: "\<forall>x\<in>set (concat cs). x < num_classes"
  proof
    fix x assume "x \<in> set (concat cs)"
    then obtain c' where c': "c' \<in> set cs" and x: "x \<in> set c'" by auto
    from c' obtain v where "v < length cs" "cs ! v = c'" by (auto simp: in_set_conv_nth)
    then show "x < num_classes" using u x n1 li by auto
  qed
  have lc: "length (concat cs) = num_users * classes_per_user"
  proof -
    have "\<forall>c'\<in>set cs. length c' = classes_per_user"
    proof
      fix c' assume "c' \<in> set cs"
      then obtain v where "v < length cs" "cs ! v = c'" by (auto simp: in_set_conv_nth)
      then show "length c' = classes_per_user" using u n1 by auto
    qed
    from length_concat_const[OF this] n1 show ?thesis by simp
  qed
  have "classes_per_user * num_users = cpc * num_classes"
    unfolding cpc_def using dv by (metis mod_0_imp_dvd dvd_div_mult_self)
  then have sm: "(\<Sum>i<num_classes. count_list (concat cs) i) = cpc * num_classes"
    using sum_count_list[OF rg] lc by (simp add: mult.commute)
  from sum_bounded_exact[OF le sm c] have occ: "count_list (concat cs) c = cpc" .
  have "cd_count (class_dict ! c) = cd_count (init ! c) - int (count_list (concat cs) c)"
    using i c li by simp
  also have "cd_count (init ! c) = int cpc" by (simp only: init_def init_class_dict_facts(2)[OF c])
  finally have "cd_count (class_dict ! c) = 0" using occ by simp
  then show ?thesis using occ cs by (simp add: cpc_def)
qed

subsection \<open>The greedy selection never runs out of candidates\<close>

lemma Max_nth_le: "i < length xs \<Longrightarrow> xs ! i \<le> Max (set (xs :: int list))"
  by simp

lemma Max_nth_ex: "xs \<noteq> [] \<Longrightarrow> \<exists>i<length xs. xs ! i = Max (set (xs :: int list))"
proof -
  assume "xs \<noteq> []"
  then have "Max (set xs) \<in> set xs" by (simp add: Max_in)
  then show ?thesis by (auto simp: in_set_conv_nth)
qed

lemma Max_eq_nth:
  assumes "m < length xs" and "\<forall>i<length xs. xs ! i \<le> xs ! m"
  shows "Max (set (xs :: int list)) = xs ! m"
proof (rule Max_eqI)
  show "finite (set xs)" by simp
  show "xs ! m \<in> set xs" using assms(1) by simp
  fix y assume "y \<in> set xs"
  then show "y \<le> xs ! m" using assms(2) by (auto simp: in_set_conv_nth)
qed

lemma free_index:
  assumes "distinct c" and "\<forall>x\<in>set c. x < K" and "length c < K"
  shows "\<exists>i<K. i \<notin> set c"
proof (rule ccontr)
  assume "\<not> (\<exists>i<K. i \<notin> set c)"
  then have "{..<K} \<subseteq> set c" by auto
  then have "card {..<K} \<le> card (set c)" by (rule card_mono[rotated]) simp
  then show False using assms(1,3) by (simp add: distinct_card)
qed

lemma sel_inv_candidate:
  assumes "sel_inv xs c" and "length c < length xs"
  shows "\<exists>i<length xs. xs ! i = Max (set xs) \<and> i \<notin> set c"
proof -
  from assms(1) have ne: "xs \<noteq> []" and d: "distinct c" and r: "\<forall>x\<in>set c. x < length xs"
    and ab: "(\<forall>x\<in>set c. xs ! x < Max (set xs))
          \<or> (\<forall>i<length xs. i \<notin> set c \<longrightarrow> xs ! i = Max (set xs))"
    by (simp_all add: sel_inv_def)
  from ab show ?thesis
  proof
    assume a: "\<forall>x\<in>set c. xs ! x < Max (set xs)"
    from Max_nth_ex[OF ne] obtain i where i: "i < length xs" "xs ! i = Max (set xs)" by blast
    then have "i \<notin> set c" using a by auto
    with i show ?thesis by blast
  next
    assume b: "\<forall>i<length xs. i \<notin> set c \<longrightarrow> xs ! i = Max (set xs)"
    from free_index[OF d r assms(2)] obtain i where "i < length xs" "i \<notin> set c" by blast
    with b show ?thesis by blast
  qed
qed

lemma sel_inv_step:
  assumes inv: "sel_inv xs c" and x: "x < length xs" and xc: "x \<notin> set c"
    and xm: "xs ! x = Max (set xs)"
  shows "sel_inv (xs[x := xs ! x - 1]) (c @ [x])"
proof -
  define ys where "ys = xs[x := xs ! x - 1]"
  define M where "M = Max (set xs)"
  from inv have ne: "xs \<noteq> []" and bal: "balanced xs" and d: "distinct c"
    and r: "\<forall>z\<in>set c. z < length xs"
    and ab: "(\<forall>z\<in>set c. xs ! z < M) \<or> (\<forall>i<length xs. i \<notin> set c \<longrightarrow> xs ! i = M)"
    by (simp_all add: sel_inv_def M_def)
  have ly: "length ys = length xs" by (simp add: ys_def)
  have yx: "ys ! x = M - 1" using x xm by (simp add: ys_def M_def)
  have yo: "\<And>i. i \<noteq> x \<Longrightarrow> ys ! i = xs ! i" by (simp add: ys_def)
  have le: "\<And>i. i < length xs \<Longrightarrow> xs ! i \<le> M" unfolding M_def by (rule Max_nth_le)
  have ge: "\<And>i. i < length xs \<Longrightarrow> M - 1 \<le> xs ! i"
  proof -
    fix i assume "i < length xs"
    with bal x have "xs ! x \<le> xs ! i + 1" unfolding balanced_def by blast
    then show "M - 1 \<le> xs ! i" using xm by (simp add: M_def)
  qed
  have yne: "ys \<noteq> []" using ne ly by auto
  have dy: "distinct (c @ [x])" using d xc by simp
  have ry: "\<forall>z\<in>set (c @ [x]). z < length ys" using r x ly by simp
  have baly: "balanced ys"
    unfolding balanced_def
  proof (intro allI impI)
    fix i j assume i: "i < length ys" and j: "j < length ys"
    have "ys ! i \<le> M" using le[of i] i ly yx yo[of i] by (cases "i = x") auto
    moreover have "M - 1 \<le> ys ! j" using ge[of j] j ly yx yo[of j] by (cases "j = x") auto
    ultimately show "ys ! i \<le> ys ! j + 1" by simp
  qed
  have disj: "(\<forall>z\<in>set (c @ [x]). ys ! z < Max (set ys))
          \<or> (\<forall>i<length ys. i \<notin> set (c @ [x]) \<longrightarrow> ys ! i = Max (set ys))"
  proof (cases "\<exists>y<length xs. y \<noteq> x \<and> xs ! y = M")
    case True
    then obtain y where y: "y < length xs" "y \<noteq> x" "xs ! y = M" by blast
    have "Max (set ys) = ys ! y"
    proof (rule Max_eq_nth)
      show "y < length ys" using y ly by simp
      show "\<forall>i<length ys. ys ! i \<le> ys ! y"
      proof (intro allI impI)
        fix i assume "i < length ys"
        then have "ys ! i \<le> M" using le[of i] ly yx yo[of i] by (cases "i = x") auto
        then show "ys ! i \<le> ys ! y" using yo[OF y(2)] y(3) by simp
      qed
    qed
    then have My: "Max (set ys) = M" using yo[OF y(2)] y(3) by simp
    from ab show ?thesis
    proof
      assume a: "\<forall>z\<in>set c. xs ! z < M"
      have "\<forall>z\<in>set (c @ [x]). ys ! z < Max (set ys)"
      proof
        fix z assume z: "z \<in> set (c @ [x])"
        show "ys ! z < Max (set ys)"
        proof (cases "z = x")
          case True
          then show ?thesis using yx My by simp
        next
          case False
          then have "z \<in> set c" using z by simp
          then show ?thesis using a yo[OF False] My by simp
        qed
      qed
      then show ?thesis by (rule disjI1)
    next
      assume b: "\<forall>i<length xs. i \<notin> set c \<longrightarrow> xs ! i = M"
      have "\<forall>i<length ys. i \<notin> set (c @ [x]) \<longrightarrow> ys ! i = Max (set ys)"
      proof (intro allI impI)
        fix i assume i: "i < length ys" and n: "i \<notin> set (c @ [x])"
        then have "i \<noteq> x" "i \<notin> set c" by simp_all
        then show "ys ! i = Max (set ys)" using b i ly yo[of i] My by simp
      qed
      then show ?thesis by (rule disjI2)
    qed
  next
    case False
    have all: "\<And>i. i < length ys \<Longrightarrow> ys ! i = M - 1"
    proof -
      fix i assume i: "i < length ys"
      show "ys ! i = M - 1"
      proof (cases "i = x")
        case True
        then show ?thesis using yx by simp
      next
        case ne: False
        have "xs ! i \<noteq> M" using False i ly ne by auto
        then have "xs ! i = M - 1" using le[of i] ge[of i] i ly by simp
        then show ?thesis using yo[OF ne] by simp
      qed
    qed
    have "Max (set ys) = ys ! x"
    proof (rule Max_eq_nth)
      show "x < length ys" using x ly by simp
      show "\<forall>i<length ys. ys ! i \<le> ys ! x" using all yx by simp
    qed
    then have "Max (set ys) = M - 1" using yx by simp
    then have "\<forall>i<length ys. i \<notin> set (c @ [x]) \<longrightarrow> ys ! i = Max (set ys)" using all by simp
    then show ?thesis by (rule disjI2)
  qed
  show ?thesis
    unfolding sel_inv_def ys_def[symmetric]
    using yne baly dy ry disj by (intro conjI)
qed

lemma sum_list_update_int:
  "k < length xs \<Longrightarrow> sum_list (xs[k := v]) = sum_list xs + v - (xs ! k :: int)"
proof (induction xs arbitrary: k)
  case Nil
  then show ?case by simp
next
  case (Cons a xs)
  then show ?case by (cases k) auto
qed

lemma dec_max_nonneg:
  assumes nn: "\<forall>i<length xs. 0 \<le> xs ! i" and s: "1 \<le> sum_list xs"
    and x: "x < length xs" and xm: "xs ! x = Max (set (xs :: int list))"
  shows "\<forall>i<length (xs[x := xs ! x - 1]). 0 \<le> (xs[x := xs ! x - 1]) ! i"
proof -
  have "1 \<le> xs ! x"
  proof (rule ccontr)
    assume "\<not> 1 \<le> xs ! x"
    then have "Max (set xs) \<le> 0" using xm by simp
    then have "\<And>y. y \<in> set xs \<Longrightarrow> y \<le> 0" by (meson List.finite_set Max_ge order_trans)
    then have "sum_list xs \<le> 0" by (rule sum_list_nonpos)
    then show False using s by simp
  qed
  then show ?thesis using nn x by (auto simp: nth_list_update)
qed

lemma counts_update:
  "x < length cd \<Longrightarrow>
   map cd_count (cd[x := (cd ! x)\<lparr>cd_count := cd_count (cd ! x) - 1\<rparr>])
     = (map cd_count cd)[x := (map cd_count cd) ! x - 1]"
  by (simp add: map_update)

lemma select_classes_pick:
  assumes inv: "sel_inv (map cd_count cd) c" and lt: "length c < length cd"
  shows "\<exists>x. x < length cd \<and> x \<notin> set c \<and> cd_count (cd ! x) = Max (set (map cd_count cd))
           \<and> select_classes rnd k (Suc n) cd c
               = select_classes rnd (Suc k) n
                   (cd[x := (cd ! x)\<lparr>cd_count := cd_count (cd ! x) - 1\<rparr>]) (c @ [x])"
proof -
  define M where "M = Max (set (map cd_count cd))"
  define cands where
    "cands = filter (\<lambda>i. i \<notin> set c) (filter (\<lambda>i. cd_count (cd ! i) = M) [0..<length cd])"
  have ne: "cd \<noteq> []" using lt by auto
  have m: "max_class_counts cd c = Inr cands"
    unfolding cands_def M_def by (rule max_class_counts_eq[OF ne])
  from sel_inv_candidate[OF inv] lt obtain i where
    i: "i < length cd" "map cd_count cd ! i = M" "i \<notin> set c" by (auto simp: M_def)
  then have "i \<in> set cands" by (simp add: cands_def)
  then have cne: "cands \<noteq> []" by auto
  define x where "x = cands ! (rnd k mod length cands)"
  have "x \<in> set cands" using cne by (simp add: x_def)
  then have xp: "x < length cd" "x \<notin> set c" "cd_count (cd ! x) = M" by (simp_all add: cands_def)
  have "select_classes rnd k (Suc n) cd c
               = select_classes rnd (Suc k) n
                   (cd[x := (cd ! x)\<lparr>cd_count := cd_count (cd ! x) - 1\<rparr>]) (c @ [x])"
    using m cne by (simp add: Let_def x_def)
  with xp show ?thesis unfolding M_def by blast
qed

lemma select_classes_succeeds:
  "sel_inv (map cd_count cd) c \<Longrightarrow> (\<forall>i<length cd. 0 \<le> cd_count (cd ! i)) \<Longrightarrow>
   int n \<le> sum_list (map cd_count cd) \<Longrightarrow> length c + n \<le> length cd \<Longrightarrow>
   \<exists>cd' c'. select_classes rnd k n cd c = Inr (cd', c') \<and> balanced (map cd_count cd')
      \<and> (\<forall>i<length cd'. 0 \<le> cd_count (cd' ! i))
      \<and> sum_list (map cd_count cd') = sum_list (map cd_count cd) - int n"
proof (induction n arbitrary: k cd c)
  case 0
  then show ?case by (simp add: sel_inv_def)
next
  case (Suc n)
  have lt: "length c < length cd" using Suc.prems(4) by simp
  from select_classes_pick[OF Suc.prems(1) lt, of rnd k n] obtain x where
    x: "x < length cd" and xc: "x \<notin> set c"
    and xm: "cd_count (cd ! x) = Max (set (map cd_count cd))"
    and st: "select_classes rnd k (Suc n) cd c
               = select_classes rnd (Suc k) n
                   (cd[x := (cd ! x)\<lparr>cd_count := cd_count (cd ! x) - 1\<rparr>]) (c @ [x])"
    by blast
  define cd1 where "cd1 = cd[x := (cd ! x)\<lparr>cd_count := cd_count (cd ! x) - 1\<rparr>]"
  define xs where "xs = map cd_count cd"
  have lx: "x < length xs" using x by (simp add: xs_def)
  have xm': "xs ! x = Max (set xs)" using xm x by (simp add: xs_def)
  have c1: "map cd_count cd1 = xs[x := xs ! x - 1]"
    unfolding cd1_def xs_def using x by (rule counts_update)
  have i1: "sel_inv (map cd_count cd1) (c @ [x])"
    unfolding c1 using Suc.prems(1) lx xc xm' unfolding xs_def[symmetric] by (rule sel_inv_step)
  have nnx: "\<forall>i<length xs. 0 \<le> xs ! i" using Suc.prems(2) by (simp add: xs_def)
  have sx: "1 \<le> sum_list xs" using Suc.prems(3) by (simp add: xs_def)
  from dec_max_nonneg[OF nnx sx lx xm'] have
    "\<forall>i<length (map cd_count cd1). 0 \<le> map cd_count cd1 ! i" by (simp only: c1)
  then have nn1: "\<forall>i<length cd1. 0 \<le> cd_count (cd1 ! i)" by simp
  have s1: "sum_list (map cd_count cd1) = sum_list xs - 1"
    unfolding c1 using sum_list_update_int[OF lx, of "xs ! x - 1"] by simp
  have sn: "int n \<le> sum_list (map cd_count cd1)" using s1 Suc.prems(3) by (simp add: xs_def)
  have ln: "length (c @ [x]) + n \<le> length cd1" using Suc.prems(4) by (simp add: cd1_def)
  from Suc.IH[OF i1 nn1 sn ln, of "Suc k"] obtain cd' c' where
    r: "select_classes rnd (Suc k) n cd1 (c @ [x]) = Inr (cd', c')"
    and b: "balanced (map cd_count cd')" and nn: "\<forall>i<length cd'. 0 \<le> cd_count (cd' ! i)"
    and sm: "sum_list (map cd_count cd') = sum_list (map cd_count cd1) - int n"
    by blast
  have "select_classes rnd k (Suc n) cd c = Inr (cd', c')" using st r by (simp add: cd1_def)
  moreover have "sum_list (map cd_count cd') = sum_list (map cd_count cd) - int (Suc n)"
    using sm s1 by (simp add: xs_def)
  ultimately show ?case using b nn by blast
qed

lemma pop_probs_succeeds:
  "distinct c \<Longrightarrow> (\<forall>x\<in>set c. x < length cd \<and> cd_prob (cd ! x) \<noteq> []) \<Longrightarrow>
   \<exists>cd' ps. pop_probs cd c = Inr (cd', ps)
      \<and> (\<forall>i<length cd. length (cd_prob (cd' ! i))
            = length (cd_prob (cd ! i)) - (if i \<in> set c then 1 else 0))"
proof (induction c arbitrary: cd)
  case Nil
  then show ?case by simp
next
  case (Cons x c)
  have xl: "x < length cd" and xp: "cd_prob (cd ! x) \<noteq> []" using Cons.prems(2) by simp_all
  then obtain p pl where pp: "cd_prob (cd ! x) = p # pl" by (cases "cd_prob (cd ! x)") auto
  define bl where "bl = butlast (p # pl)"
  define q where "q = last (p # pl)"
  define cd1 where "cd1 = cd[x := (cd ! x)\<lparr>cd_prob := bl\<rparr>]"
  have l1: "length cd1 = length cd" by (simp add: cd1_def)
  have o: "\<And>i. i \<noteq> x \<Longrightarrow> cd1 ! i = cd ! i" by (simp add: cd1_def)
  have d: "distinct c" and xc: "x \<notin> set c" using Cons.prems(1) by simp_all
  have pre: "\<forall>y\<in>set c. y < length cd1 \<and> cd_prob (cd1 ! y) \<noteq> []"
  proof
    fix y assume y: "y \<in> set c"
    then have "y \<noteq> x" using xc by auto
    then show "y < length cd1 \<and> cd_prob (cd1 ! y) \<noteq> []" using Cons.prems(2) y l1 o by simp
  qed
  from Cons.IH[OF d pre] obtain cd' qs where
    r: "pop_probs cd1 c = Inr (cd', qs)"
    and ln: "\<forall>i<length cd1. length (cd_prob (cd' ! i))
            = length (cd_prob (cd1 ! i)) - (if i \<in> set c then 1 else 0)"
    by blast
  have e: "pop_probs cd (x # c) = Inr (cd', q # qs)"
    using xl pp r unfolding cd1_def bl_def q_def
    by (simp del: butlast.simps last.simps)
  have "\<forall>i<length cd. length (cd_prob (cd' ! i))
            = length (cd_prob (cd ! i)) - (if i \<in> set (x # c) then 1 else 0)"
  proof (intro allI impI)
    fix i assume i: "i < length cd"
    from ln i l1 have li: "length (cd_prob (cd' ! i))
            = length (cd_prob (cd1 ! i)) - (if i \<in> set c then 1 else 0)" by simp
    show "length (cd_prob (cd' ! i))
            = length (cd_prob (cd ! i)) - (if i \<in> set (x # c) then 1 else 0)"
    proof (cases "i = x")
      case True
      have "cd_prob (cd1 ! x) = bl" using xl by (simp add: cd1_def)
      then have "length (cd_prob (cd1 ! x)) = length (cd_prob (cd ! x)) - 1"
        by (simp add: bl_def pp)
      then show ?thesis using li xc True by simp
    next
      case False
      then show ?thesis using li o by simp
    qed
  qed
  with e show ?case by blast
qed


lemma assign_classes_succeeds:
  "cd \<noteq> [] \<Longrightarrow> cpu \<le> length cd \<Longrightarrow> balanced (map cd_count cd) \<Longrightarrow>
   (\<forall>i<length cd. cd_count (cd ! i) = int (length (cd_prob (cd ! i)))) \<Longrightarrow>
   sum_list (map cd_count cd) = int (n * cpu) \<Longrightarrow>
   \<exists>cd' parts'. assign_classes rnd k n cpu cd parts = Inr (cd', parts')"
proof (induction n arbitrary: k cd parts)
  case 0
  then show ?case by simp
next
  case (Suc n)
  have si: "sel_inv (map cd_count cd) []"
    using Suc.prems(1,3) by (simp add: sel_inv_def)
  have nn: "\<forall>i<length cd. 0 \<le> cd_count (cd ! i)" using Suc.prems(4) by simp
  have sc: "int cpu \<le> sum_list (map cd_count cd)" using Suc.prems(5) by simp
  have lc: "length ([] :: nat list) + cpu \<le> length cd" using Suc.prems(2) by simp
  from select_classes_succeeds[OF si nn sc lc, of rnd k] obtain cd1 c where
    s: "select_classes rnd k cpu cd [] = Inr (cd1, c)"
    and b1: "balanced (map cd_count cd1)" and nn1: "\<forall>i<length cd1. 0 \<le> cd_count (cd1 ! i)"
    and s1: "sum_list (map cd_count cd1) = sum_list (map cd_count cd) - int cpu"
    by blast
  from select_classes_result[OF s] have
    l1: "length cd1 = length cd" and dc: "distinct c" and rc: "\<forall>x\<in>set c. x < length cd"
    and e1: "\<forall>i<length cd. cd_prob (cd1 ! i) = cd_prob (cd ! i)
               \<and> cd_count (cd1 ! i) = cd_count (cd ! i) - (if i \<in> set c then 1 else 0)"
    by auto
  have pos: "\<And>x. x \<in> set c \<Longrightarrow> 1 \<le> length (cd_prob (cd ! x))"
  proof -
    fix x assume x: "x \<in> set c"
    then have xl: "x < length cd" using rc by simp
    have "0 \<le> cd_count (cd1 ! x)" using nn1 xl l1 by simp
    then have "1 \<le> cd_count (cd ! x)" using e1 xl x by simp
    then show "1 \<le> length (cd_prob (cd ! x))" using Suc.prems(4) xl by simp
  qed
  have pre: "\<forall>x\<in>set c. x < length cd1 \<and> cd_prob (cd1 ! x) \<noteq> []"
  proof
    fix x assume x: "x \<in> set c"
    then have xl: "x < length cd" using rc by simp
    have "cd_prob (cd1 ! x) = cd_prob (cd ! x)" using e1 xl by simp
    then show "x < length cd1 \<and> cd_prob (cd1 ! x) \<noteq> []" using pos[OF x] xl l1 by auto
  qed
  from pop_probs_succeeds[OF dc pre] obtain cd2 ps where
    p: "pop_probs cd1 c = Inr (cd2, ps)"
    and pl: "\<forall>i<length cd1. length (cd_prob (cd2 ! i))
            = length (cd_prob (cd1 ! i)) - (if i \<in> set c then 1 else 0)"
    by blast
  from pop_probs_result[OF p] have
    l2: "length cd2 = length cd1"
    and e2: "\<forall>i<length cd1. cd_count (cd2 ! i) = cd_count (cd1 ! i)"
    by simp_all
  have m2: "map cd_count cd2 = map cd_count cd1"
    using l2 e2 by (simp add: list_eq_iff_nth_eq)
  have a1: "cd2 \<noteq> []" using Suc.prems(1) l1 l2 by auto
  have a2: "cpu \<le> length cd2" using Suc.prems(2) l1 l2 by simp
  have a3: "balanced (map cd_count cd2)" using b1 by (simp only: m2)
  have a4: "\<forall>i<length cd2. cd_count (cd2 ! i) = int (length (cd_prob (cd2 ! i)))"
  proof (intro allI impI)
    fix i assume "i < length cd2"
    then have i: "i < length cd" using l1 l2 by simp
    have c2: "cd_count (cd2 ! i) = cd_count (cd ! i) - (if i \<in> set c then 1 else 0)"
      using e1 e2 i l1 by simp
    have p2: "length (cd_prob (cd2 ! i))
                = length (cd_prob (cd ! i)) - (if i \<in> set c then 1 else 0)"
      using pl e1 i l1 by simp
    show "cd_count (cd2 ! i) = int (length (cd_prob (cd2 ! i)))"
    proof (cases "i \<in> set c")
      case True
      then show ?thesis using c2 p2 pos[OF True] Suc.prems(4) i by simp
    next
      case False
      then show ?thesis using c2 p2 Suc.prems(4) i by simp
    qed
  qed
  have a5: "sum_list (map cd_count cd2) = int (n * cpu)"
    using s1 Suc.prems(5) by (simp add: m2)
  from Suc.IH[OF a1 a2 a3 a4 a5] obtain cd' parts' where
    "assign_classes rnd (k + cpu) n cpu cd2
       (parts\<lparr>cp_class := cp_class parts @ [c], cp_prob := cp_prob parts @ [ps]\<rparr>)
       = Inr (cd', parts')"
    by blast
  then have "assign_classes rnd k (Suc n) cpu cd parts = Inr (cd', parts')"
    using s p by simp
  then show ?case by blast
qed

lemma init_class_dict_counts:
  "map cd_count (init_class_dict unif low high K n) = replicate K (int n)"
  by (simp add: init_class_dict_def list_eq_iff_nth_eq)

lemma balanced_replicate: "balanced (replicate K v)"
  by (simp add: balanced_def)

lemma gen_classes_per_node_state_succeeds:
  assumes g: "get_num_classes_samples dataset = Inr (num_classes, num_samples, labels)"
    and k: "num_classes \<noteq> 0"
    and dv: "(classes_per_user * num_users) mod num_classes = 0"
    and le: "num_users = 0 \<or> classes_per_user \<le> num_classes"
  shows "\<exists>cd plan. gen_classes_per_node_state rnd unif dataset num_users classes_per_user
                     high_prob low_prob = Inr (cd, plan)"
proof -
  define cpc where "cpc = (classes_per_user * num_users) div num_classes"
  define init where "init = init_class_dict unif low_prob high_prob num_classes cpc"
  have e: "gen_classes_per_node_state rnd unif dataset num_users classes_per_user
             high_prob low_prob
           = assign_classes rnd 0 num_users classes_per_user init \<lparr>cp_class = [], cp_prob = []\<rparr>"
    using g k dv by (simp add: gen_classes_per_node_state_def init_def cpc_def)
  show ?thesis
  proof (cases "num_users = 0")
    case True
    have "assign_classes rnd 0 num_users classes_per_user init \<lparr>cp_class = [], cp_prob = []\<rparr>
            = Inr (init, \<lparr>cp_class = [], cp_prob = []\<rparr>)"
      by (simp add: True)
    then show ?thesis by (simp only: e) blast
  next
    case False
    with le have cl: "classes_per_user \<le> num_classes" by simp
    have li: "length init = num_classes" by (simp add: init_def init_class_dict_facts)
    have a1: "init \<noteq> []" using li k by auto
    have a2: "classes_per_user \<le> length init" using cl li by simp
    have a3: "balanced (map cd_count init)"
      by (simp only: init_def init_class_dict_counts balanced_replicate)
    have a4: "\<forall>i<length init. cd_count (init ! i) = int (length (cd_prob (init ! i)))"
    proof (intro allI impI)
      fix i assume "i < length init"
      then have i: "i < num_classes" using li by simp
      show "cd_count (init ! i) = int (length (cd_prob (init ! i)))"
        by (simp only: init_def init_class_dict_facts(2)[OF i] init_class_dict_facts(3)[OF i])
    qed
    have "classes_per_user * num_users = cpc * num_classes"
      unfolding cpc_def using dv by (metis mod_0_imp_dvd dvd_div_mult_self)
    then have a5: "sum_list (map cd_count init) = int (num_users * classes_per_user)"
      by (simp add: init_def init_class_dict_counts sum_list_replicate mult.commute
               flip: of_nat_mult)
    from assign_classes_succeeds[OF a1 a2 a3 a4 a5] show ?thesis by (simp only: e)
  qed
qed


lemma gen_classes_per_node_Inl:
  "gen_classes_per_node rnd unif dataset num_users cpu high low = Inl e
     \<longleftrightarrow> gen_classes_per_node_state rnd unif dataset num_users cpu high low = Inl e"
  by (cases "gen_classes_per_node_state rnd unif dataset num_users cpu high low")
     (auto simp: gen_classes_per_node_def)

lemma gen_classes_per_node_succeeds:
  assumes g: "get_num_classes_samples dataset = Inr (num_classes, num_samples, labels)"
    and k: "num_classes \<noteq> 0"
    and dv: "(classes_per_user * num_users) mod num_classes = 0"
    and le: "num_users = 0 \<or> classes_per_user \<le> num_classes"
  shows "\<exists>plan. gen_classes_per_node rnd unif dataset num_users classes_per_user
                   high_prob low_prob = Inr plan"
proof -
  from gen_classes_per_node_state_succeeds[OF g k dv le] obtain cd plan where
    "gen_classes_per_node_state rnd unif dataset num_users classes_per_user high_prob low_prob
       = Inr (cd, plan)" by blast
  then have "gen_classes_per_node rnd unif dataset num_users classes_per_user high_prob low_prob
       = Inr plan" by (simp add: gen_classes_per_node_def)
  then show ?thesis by blast
qed

lemma gen_classes_per_node_too_many_classes:
  assumes g: "get_num_classes_samples dataset = Inr (num_classes, num_samples, labels)"
    and nu: "0 < num_users" and gt: "num_classes < classes_per_user"
  shows "gen_classes_per_node rnd unif dataset num_users classes_per_user high_prob low_prob
           \<noteq> Inr plan"
proof
  assume "gen_classes_per_node rnd unif dataset num_users classes_per_user high_prob low_prob
            = Inr plan"
  from gen_classes_per_node_unfold[OF this] obtain cd' where
    st: "gen_classes_per_node_state rnd unif dataset num_users classes_per_user high_prob low_prob
           = Inr (cd', plan)" by blast
  from gen_classes_per_node_state_unfold[OF st] g have
    a: "assign_classes rnd 0 num_users classes_per_user
          (init_class_dict unif low_prob high_prob num_classes
             ((classes_per_user * num_users) div num_classes))
          \<lparr>cp_class = [], cp_prob = []\<rparr> = Inr (cd', plan)" by auto
  from assign_classes_result[OF a] obtain cs where
    u: "\<forall>u<num_users. length (cs ! u) = classes_per_user \<and> distinct (cs ! u)
          \<and> (\<forall>x\<in>set (cs ! u). x < num_classes)"
    by (auto simp: init_class_dict_facts)
  from u nu have l: "length (cs ! 0) = classes_per_user" and d: "distinct (cs ! 0)"
    and r: "\<forall>x\<in>set (cs ! 0). x < num_classes" by simp_all
  have "set (cs ! 0) \<subseteq> {..<num_classes}" using r by auto
  then have "card (set (cs ! 0)) \<le> card {..<num_classes}" by (rule card_mono[rotated]) simp
  then have "classes_per_user \<le> num_classes" using l d by (simp add: distinct_card)
  then show False using gt by simp
qed

text \<open>
  C2, as the code has it. Divisibility alone does not let the generator assign anything:
  with two classes, one user and four classes per user, \<open>4 * 1 mod 2 = 0\<close>, and the
  third choice of the user finds every class already taken, so \<open>np.random.choice\<close>
  raises ValueError and no plan is returned.
\<close>

theorem divisible_budget_unmet_counterexample:
  "(4 * 1) mod 2 = (0 :: nat)
   \<and> get_num_classes_samples (Targets [0, 1, 0, 1]) = Inr (2, [2, 2], [0, 1, 0, 1])
   \<and> gen_classes_per_node_state (\<lambda>k. k) (\<lambda>i k. 1 / 2) (Targets [0, 1, 0, 1]) 1 4
        (6/10) (4/10) = Inl ValueError
   \<and> gen_classes_per_node (\<lambda>k. k) (\<lambda>i k. 1 / 2) (Targets [0, 1, 0, 1]) 1 4 (6/10) (4/10)
       = Inl ValueError"
  by code_simp

text \<open>
  C2, amended. For every \<open>(num_users, classes_per_user, num_classes)\<close> with at least one
  class that satisfies the divisibility precondition and has
  \<open>classes_per_user \<le> num_classes\<close> (or no user at all), the generator returns, whatever
  the random draws, and at its return every class occurs in exactly
  \<open>count_per_class = classes_per_user * num_users div num_classes\<close> (user, slot) pairs of
  the plan and its remaining count in \<open>class_dict\<close> is 0.
\<close>

theorem gen_classes_per_node_budget:
  assumes g: "get_num_classes_samples dataset = Inr (num_classes, num_samples, labels)"
    and k: "num_classes \<noteq> 0"
    and dv: "(classes_per_user * num_users) mod num_classes = 0"
    and le: "num_users = 0 \<or> classes_per_user \<le> num_classes"
  shows "\<exists>class_dict plan.
           gen_classes_per_node_state rnd unif dataset num_users classes_per_user
               high_prob low_prob = Inr (class_dict, plan)
         \<and> gen_classes_per_node rnd unif dataset num_users classes_per_user
               high_prob low_prob = Inr plan
         \<and> (\<forall>c<num_classes.
                count_list (concat (cp_class plan)) c
                  = (classes_per_user * num_users) div num_classes
              \<and> cd_count (class_dict ! c) = 0)"
proof -
  from gen_classes_per_node_state_succeeds[OF g k dv le] obtain cd plan where
    run: "gen_classes_per_node_state rnd unif dataset num_users classes_per_user
            high_prob low_prob = Inr (cd, plan)"
    by blast
  have p: "gen_classes_per_node rnd unif dataset num_users classes_per_user high_prob low_prob
             = Inr plan"
    by (simp add: gen_classes_per_node_def run)
  have b: "\<forall>c<num_classes.
             count_list (concat (cp_class plan)) c = (classes_per_user * num_users) div num_classes
           \<and> cd_count (cd ! c) = 0"
    using gen_classes_per_node_state_budget[OF g dv run] by blast
  from run p b show ?thesis by blast
qed

theorem gen_classes_per_node_budget_witness:
  "get_num_classes_samples (Targets [0, 1, 2, 0, 1, 2]) = Inr (3, [2, 2, 2], [0, 1, 2, 0, 1, 2])
   \<and> (3 :: nat) \<noteq> 0 \<and> (2 * 3) mod 3 = (0 :: nat) \<and> (2 :: nat) \<le> 3
   \<and> gen_classes_per_node_state (\<lambda>k. k) (\<lambda>i k. 1 / 2)
        (Targets [0, 1, 2, 0, 1, 2]) 3 2 (6/10) (4/10)
       = Inr ([\<lparr>cd_count = 0, cd_prob = []\<rparr>, \<lparr>cd_count = 0, cd_prob = []\<rparr>,
               \<lparr>cd_count = 0, cd_prob = []\<rparr>],
              \<lparr>cp_class = [[0, 2], [1, 2], [0, 1]],
                 cp_prob = [[Finite (1 / 2), Finite (1 / 2)], [Finite (1 / 2), Finite (1 / 2)],
                            [Finite (1 / 2), Finite (1 / 2)]]\<rparr>)
   \<and> count_list (concat [[0, 2], [1, 2], [0, 1 :: nat]]) 1 = (2 * 3) div 3
   \<and> cd_count ([\<lparr>cd_count = 0, cd_prob = []\<rparr>, \<lparr>cd_count = 0, cd_prob = []\<rparr>,
               \<lparr>cd_count = 0, cd_prob = []\<rparr>] ! 1) = 0"
proof -
  have g: "get_num_classes_samples (Targets [0, 1, 2, 0, 1, 2])
             = Inr (3, [2, 2, 2], [0, 1, 2, 0, 1, 2])"
    by code_simp
  have k: "(3 :: nat) \<noteq> 0" by simp
  have dv: "(2 * 3) mod 3 = (0 :: nat)" by simp
  have le: "(3 :: nat) = 0 \<or> (2 :: nat) \<le> 3" by simp
  have r: "gen_classes_per_node_state (\<lambda>k. k) (\<lambda>i k. 1 / 2)
        (Targets [0, 1, 2, 0, 1, 2]) 3 2 (6/10) (4/10)
       = Inr ([\<lparr>cd_count = 0, cd_prob = []\<rparr>, \<lparr>cd_count = 0, cd_prob = []\<rparr>,
               \<lparr>cd_count = 0, cd_prob = []\<rparr>],
              \<lparr>cp_class = [[0, 2], [1, 2], [0, 1]],
                 cp_prob = [[Finite (1 / 2), Finite (1 / 2)], [Finite (1 / 2), Finite (1 / 2)],
                            [Finite (1 / 2), Finite (1 / 2)]]\<rparr>)"
    by code_simp
  from gen_classes_per_node_budget [OF g k dv le, of "\<lambda>k. k" "\<lambda>i k. 1 / 2"
      "6/10" "4/10"]
  obtain cd plan where
    s: "gen_classes_per_node_state (\<lambda>k. k) (\<lambda>i k. 1 / 2)
          (Targets [0, 1, 2, 0, 1, 2]) 3 2 (6/10) (4/10) = Inr (cd, plan)"
    and b: "\<forall>c<3. count_list (concat (cp_class plan)) c = (2 * 3) div 3
              \<and> cd_count (cd ! c) = 0"
    by blast
  from s r have cd: "cd = [\<lparr>cd_count = 0, cd_prob = []\<rparr>, \<lparr>cd_count = 0, cd_prob = []\<rparr>,
               \<lparr>cd_count = 0, cd_prob = []\<rparr>]"
    and pl: "cp_class plan = [[0, 2], [1, 2], [0, 1]]"
    by simp_all
  have c: "(1 :: nat) < 3" and l: "(2 :: nat) \<le> 3" by simp_all
  from b c have "count_list (concat (cp_class plan)) 1 = (2 * 3) div 3 \<and> cd_count (cd ! 1) = 0"
    by blast
  then have "count_list (concat [[0, 2], [1, 2], [0, 1 :: nat]]) 1 = (2 * 3) div 3
      \<and> cd_count ([\<lparr>cd_count = 0, cd_prob = []\<rparr>, \<lparr>cd_count = 0, cd_prob = []\<rparr>,
               \<lparr>cd_count = 0, cd_prob = []\<rparr>] ! 1) = 0"
    by (simp only: cd pl)
  with g k dv l r show ?thesis by blast
qed

text \<open>
  C9. With the divisibility precondition and \<open>classes_per_user \<le> num_classes\<close>, no
  selection step finds its candidate list empty, whatever the random draws: the run never
  raises the ValueError of \<open>np.random.choice\<close>, and on a dataset with at least one
  class it returns a plan.
\<close>

theorem gen_classes_per_node_choice_never_empty:
  assumes g: "get_num_classes_samples dataset = Inr (num_classes, num_samples, labels)"
    and dv: "(classes_per_user * num_users) mod num_classes = 0"
    and le: "classes_per_user \<le> num_classes"
  shows "gen_classes_per_node rnd unif dataset num_users classes_per_user high_prob low_prob
           \<noteq> Inl ValueError
       \<and> (num_classes \<noteq> 0 \<longrightarrow>
            (\<exists>plan. gen_classes_per_node rnd unif dataset num_users classes_per_user
                      high_prob low_prob = Inr plan))"
proof (cases "num_classes = 0")
  case True
  have "gen_classes_per_node rnd unif dataset num_users classes_per_user high_prob low_prob
          = Inl ZeroDivisionError"
    using g True by (simp add: gen_classes_per_node_def gen_classes_per_node_state_def)
  then show ?thesis using True by simp
next
  case False
  from gen_classes_per_node_succeeds[OF g False dv disjI2[OF le]] obtain plan where
    "gen_classes_per_node rnd unif dataset num_users classes_per_user high_prob low_prob
       = Inr plan" by blast
  then show ?thesis by simp
qed

theorem gen_classes_per_node_choice_never_empty_witness:
  "get_num_classes_samples (Targets [0, 1, 2, 0, 1, 2]) = Inr (3, [2, 2, 2], [0, 1, 2, 0, 1, 2])
   \<and> (2 * 3) mod 3 = (0 :: nat) \<and> (2 :: nat) \<le> 3
   \<and> gen_classes_per_node (\<lambda>k. 2 * k + 1) (\<lambda>i k. 1 / 3) (Targets [0, 1, 2, 0, 1, 2]) 3 2
        (6/10) (4/10) \<noteq> Inl ValueError
   \<and> (\<exists>plan. gen_classes_per_node (\<lambda>k. 2 * k + 1) (\<lambda>i k. 1 / 3) (Targets [0, 1, 2, 0, 1, 2])
                3 2 (6/10) (4/10) = Inr plan)"
proof -
  have g: "get_num_classes_samples (Targets [0, 1, 2, 0, 1, 2])
             = Inr (3, [2, 2, 2], [0, 1, 2, 0, 1, 2])"
    by code_simp
  have dv: "(2 * 3) mod 3 = (0 :: nat)" by simp
  have le: "(2 :: nat) \<le> 3" by simp
  have k: "(3 :: nat) \<noteq> 0" by simp
  from gen_classes_per_node_choice_never_empty [OF g dv le, of "\<lambda>k. 2 * k + 1" "\<lambda>i k. 1 / 3"
      "6/10" "4/10"] k g dv le
  show ?thesis by blast
qed

text \<open>
  C6, as the code has it. Divisibility is not enough for the generator to return: with
  two classes, two users and three classes per user, \<open>3 * 2 mod 2 = 0\<close>, and the third
  choice of the first user finds every class already taken.
\<close>

theorem divisibility_not_sufficient_counterexample:
  "(3 * 2) mod 2 = (0 :: nat)
   \<and> get_num_classes_samples (Targets [0, 1, 0, 1]) = Inr (2, [2, 2], [0, 1, 0, 1])
   \<and> gen_classes_per_node (\<lambda>k. k) (\<lambda>i k. 1 / 2) (Targets [0, 1, 0, 1]) 2 3 (6/10) (4/10)
       = Inl ValueError"
  by code_simp

text \<open>
  C6, amended. On a dataset whose labels can be read, \<open>gen_classes_per_node\<close> fails if
  and only if there is no class at all, or \<open>classes_per_user * num_users\<close> is not a
  multiple of \<open>num_classes\<close>, or there is at least one user and \<open>classes_per_user\<close>
  exceeds \<open>num_classes\<close>. The divisibility violation raises the AssertionError, before
  anything is drawn.
\<close>

theorem gen_classes_per_node_fails_iff:
  assumes g: "get_num_classes_samples dataset = Inr (num_classes, num_samples, labels)"
  shows "((\<exists>e. gen_classes_per_node rnd unif dataset num_users classes_per_user
                 high_prob low_prob = Inl e)
          \<longleftrightarrow> (num_classes = 0 \<or> (classes_per_user * num_users) mod num_classes \<noteq> 0
               \<or> (0 < num_users \<and> num_classes < classes_per_user)))
       \<and> (num_classes \<noteq> 0 \<and> (classes_per_user * num_users) mod num_classes \<noteq> 0 \<longrightarrow>
            gen_classes_per_node rnd unif dataset num_users classes_per_user
              high_prob low_prob = Inl AssertionError)"
proof -
  let ?run = "gen_classes_per_node rnd unif dataset num_users classes_per_user high_prob low_prob"
  have z: "num_classes = 0 \<Longrightarrow> ?run = Inl ZeroDivisionError"
    using g by (simp add: gen_classes_per_node_def gen_classes_per_node_state_def)
  have a: "num_classes \<noteq> 0 \<Longrightarrow> (classes_per_user * num_users) mod num_classes \<noteq> 0
             \<Longrightarrow> ?run = Inl AssertionError"
    using g by (simp add: gen_classes_per_node_def gen_classes_per_node_state_def)
  have t: "0 < num_users \<Longrightarrow> num_classes < classes_per_user \<Longrightarrow> \<exists>e. ?run = Inl e"
  proof -
    assume nu: "0 < num_users" and gt: "num_classes < classes_per_user"
    show "\<exists>e. ?run = Inl e"
    proof (cases ?run)
      case (Inl e)
      then show ?thesis by blast
    next
      case (Inr plan)
      with gen_classes_per_node_too_many_classes[OF g nu gt, of rnd unif high_prob low_prob plan]
      show ?thesis by simp
    qed
  qed
  have s: "num_classes \<noteq> 0 \<Longrightarrow> (classes_per_user * num_users) mod num_classes = 0
             \<Longrightarrow> \<not> (0 < num_users \<and> num_classes < classes_per_user)
             \<Longrightarrow> \<not> (\<exists>e. ?run = Inl e)"
  proof -
    assume k: "num_classes \<noteq> 0" and dv: "(classes_per_user * num_users) mod num_classes = 0"
      and n: "\<not> (0 < num_users \<and> num_classes < classes_per_user)"
    from n have le: "num_users = 0 \<or> classes_per_user \<le> num_classes" by auto
    from gen_classes_per_node_succeeds[OF g k dv le] obtain plan where "?run = Inr plan" by blast
    then show "\<not> (\<exists>e. ?run = Inl e)" by simp
  qed
  show ?thesis using z a t s by blast
qed

theorem gen_classes_per_node_fails_iff_witness:
  "get_num_classes_samples (Targets [0, 1, 0, 1]) = Inr (2, [2, 2], [0, 1, 0, 1])
   \<and> (\<exists>e. gen_classes_per_node (\<lambda>k. k) (\<lambda>i k. 1 / 2) (Targets [0, 1, 0, 1]) 2 3 (6/10) (4/10)
            = Inl e)
   \<and> gen_classes_per_node (\<lambda>k. k) (\<lambda>i k. 1 / 2) (Targets [0, 1, 0, 1]) 1 1 (6/10) (4/10)
       = Inl AssertionError"
proof -
  have g: "get_num_classes_samples (Targets [0, 1, 0, 1]) = Inr (2, [2, 2], [0, 1, 0, 1])"
    by code_simp
  have a: "(0 :: nat) < 2 \<and> (2 :: nat) < 3" by simp
  have b: "(2 :: nat) \<noteq> 0 \<and> (1 * 1) mod 2 \<noteq> (0 :: nat)" by simp
  from gen_classes_per_node_fails_iff [OF g, of "\<lambda>k. k" "\<lambda>i k. 1 / 2" 2 3 "6/10" "4/10"] a
  have 1: "\<exists>e. gen_classes_per_node (\<lambda>k. k) (\<lambda>i k. 1 / 2) (Targets [0, 1, 0, 1]) 2 3
                 (6/10) (4/10) = Inl e"
    by blast
  from gen_classes_per_node_fails_iff [OF g, of "\<lambda>k. k" "\<lambda>i k. 1 / 2" 1 1 "6/10" "4/10"] b
  have 2: "gen_classes_per_node (\<lambda>k. k) (\<lambda>i k. 1 / 2) (Targets [0, 1, 0, 1]) 1 1 (6/10) (4/10)
       = Inl AssertionError"
    by blast
  from g 1 2 show ?thesis by blast
qed

section \<open>The splitter under a plan whose proportions sum to one\<close>

subsection \<open>The rounded product is close to the exact one\<close>

text \<open>
  The rounding at known values: the literals \<open>0.1\<close> and \<open>1 / 3\<close>, the product
  \<open>7 * 0.1 = 0.7000000000000001\<close>, and a tie between two neighbours (\<open>2 ^ 53 + 1\<close> goes
  to the even \<open>2 ^ 53\<close>).
\<close>

lemma round_double_examples:
  "round_double (1 / 10) = Finite (3602879701896397 / 36028797018963968)"
  "round_double (1 / 3) = Finite (6004799503160661 / 18014398509481984)"
  "round_double (7 * (3602879701896397 / 36028797018963968))
     = Finite (6305039478318695 / 9007199254740992)"
  "round_double 9007199254740993 = Finite 9007199254740992"
  by code_simp+
















subsection \<open>Requests that fit their pools are served in full\<close>
















end
